theory Spec2Isabelle
  imports Main
begin

section \<open>JavaScript values\<close>

text \<open>
  The values the modelled code compares and passes around.  Objects, arrays and
  functions are references (an address); \<open>JNaN\<close> is kept apart from the other
  numbers because \<open>===\<close> treats it specially.
\<close>

datatype jsval =
    JUndefined
  | JNull
  | JBool bool
  | JNum int
  | JNaN
  | JStr string
  | JObj nat
  | JFun nat

text \<open>\<open>x === y\<close>: identity on references, equality on primitives, never true on NaN.\<close>

definition strict_eq :: "jsval \<Rightarrow> jsval \<Rightarrow> bool" where
  "strict_eq x y = (x = y \<and> x \<noteq> JNaN)"

text \<open>What the modelled code can throw.\<close>

datatype js_error = TypeError | DOMException

section \<open>Render nodes (src/core/vdom/patch.js)\<close>

text \<open>
  The fields of a VNode that \<open>sameVnode\<close> and \<open>updateChildren\<close> read or write.
  An absent (\<open>undefined\<close>) field is \<open>None\<close>.  \<open>data.attrs.type\<close> is any value,
  \<open>JUndefined\<close> when \<open>attrs\<close> has no \<open>type\<close> entry.  A key is any value,
  \<open>JUndefined\<close> when the node has none; an async factory is a function object,
  identified by its address; \<open>elm\<close> is the handle of the host node.
\<close>

record vattrs =
  atype :: jsval

record vdata =
  attrs :: "vattrs option"

record vnode =
  tag :: "string option"
  data :: "vdata option"
  key :: jsval
  elm :: "nat option"
  isComment :: bool
  asyncFactory :: "nat option"
  isAsyncPlaceholder :: bool

text \<open>
  What \<open>patch.js\<close> takes from outside the sources: \<open>isTextInputType\<close> (imported from
  \<open>web/util/element\<close>), the \<open>error\<close> property that a factory object carries
  (\<open>factoryError f\<close> is \<open>isDef(f.error)\<close>), and the string form \<open>String(v)\<close> of the
  values for which it is not computed here: objects and functions (their own
  \<open>toString\<close>) and the numbers from \<open>10^21\<close> on (written with an exponent).
\<close>

record env =
  isTextInputType :: "jsval \<Rightarrow> bool"
  factoryError :: "nat \<Rightarrow> bool"
  toStringOf :: "jsval \<Rightarrow> string"

text \<open>\<open>isDef(v)\<close> of \<open>util\<close>: \<open>v !== undefined && v !== null\<close>.\<close>

definition isDef :: "jsval \<Rightarrow> bool" where
  "isDef v = (v \<noteq> JUndefined \<and> v \<noteq> JNull)"

text \<open>
  \<open>isDef(i = a.data) && isDef(i = i.attrs) && i.type\<close>: the value \<open>false\<close> when the
  data bag or its \<open>attrs\<close> is missing, \<open>attrs.type\<close> otherwise.
\<close>

definition inputType :: "vnode \<Rightarrow> jsval" where
  "inputType a =
     (case data a of
        None \<Rightarrow> JBool False
      | Some d \<Rightarrow> (case attrs d of None \<Rightarrow> JBool False | Some i \<Rightarrow> atype i))"

definition sameInputType :: "env \<Rightarrow> vnode \<Rightarrow> vnode \<Rightarrow> bool" where
  "sameInputType e a b =
     (if tag a \<noteq> Some ''input'' then True
      else let typeA = inputType a; typeB = inputType b
           in strict_eq typeA typeB \<or> (isTextInputType e typeA \<and> isTextInputType e typeB))"

text \<open>
  \<open>sameVnode\<close>, with the short-circuit order of the source.  The keys are compared
  by \<open>===\<close>, so a key \<open>NaN\<close> equals no key.  The read \<open>b.asyncFactory.error\<close> throws a
  TypeError when \<open>b\<close> has no async factory; it is reached only when the first
  alternative fails and \<open>a.isAsyncPlaceholder\<close> is true.
\<close>

definition sameVnode :: "env \<Rightarrow> vnode \<Rightarrow> vnode \<Rightarrow> js_error + bool" where
  "sameVnode e a b =
     (if strict_eq (key a) (key b) \<and> asyncFactory a = asyncFactory b then
        if tag a = tag b \<and> isComment a = isComment b \<and>
           (data a \<noteq> None) = (data b \<noteq> None) \<and> sameInputType e a b
        then Inr True
        else if isAsyncPlaceholder a then
          (case asyncFactory b of
             None \<Rightarrow> Inl TypeError
           | Some f \<Rightarrow> Inr (\<not> factoryError e f))
        else Inr False
      else Inr False)"

text \<open>
  Modelled from the spec: \<open>isTextInputType\<close> of \<open>web/util/element\<close>, which is not
  among the sources.  The spec speaks of text-input elements; the table of the web
  platform is \<open>makeMap('text,number,password,search,email,tel,url')\<close>.  A value
  that is not a string is looked up by its string form, which is none of the seven.
\<close>

definition web_isTextInputType :: "jsval \<Rightarrow> bool" where
  "web_isTextInputType v =
     (case v of
        JStr s \<Rightarrow> s \<in> set [''text'', ''number'', ''password'', ''search'', ''email'', ''tel'', ''url'']
      | _ \<Rightarrow> False)"

text \<open>An environment for the scenarios: the web table, no factory has failed, and
  every object prints as a plain object does.\<close>

definition web_env :: env where
  "web_env =
     \<lparr>isTextInputType = web_isTextInputType, factoryError = (\<lambda>f. False),
      toStringOf = (\<lambda>v. ''[object Object]'')\<rparr>"

definition input_of_type :: "string \<Rightarrow> vnode" where
  "input_of_type t =
     \<lparr>tag = Some ''input'', data = Some \<lparr>attrs = Some \<lparr>atype = JStr t\<rparr>\<rparr>, key = JUndefined,
      elm = None, isComment = False, asyncFactory = None, isAsyncPlaceholder = False\<rparr>"

section \<open>Host nodes\<close>

text \<open>
  Modelled from the spec: the node-operations collaborator (\<open>nodeOps\<close> of the platform,
  not among the sources) with its insert-before, remove-child, query-parent and
  next-sibling operations.  The children of \<open>parentElm\<close> are a list of host-node
  handles; a host node outside that list has no parent here.  Passing \<open>undefined\<close>
  where a node is required throws a TypeError, a reference node that is not a child
  throws a DOMException.
\<close>

definition nextSibling :: "nat list \<Rightarrow> nat option \<Rightarrow> js_error + nat option" where
  "nextSibling ch n =
     (case n of
        None \<Rightarrow> Inl TypeError
      | Some x \<Rightarrow>
          Inr (case dropWhile (\<lambda>y. y \<noteq> x) ch of
                 _ # y # _ \<Rightarrow> Some y
               | _ \<Rightarrow> None))"

definition insertBefore :: "nat list \<Rightarrow> nat option \<Rightarrow> nat option \<Rightarrow> js_error + nat list" where
  "insertBefore ch n ref =
     (case n of
        None \<Rightarrow> Inl TypeError
      | Some x \<Rightarrow>
          (case ref of
             None \<Rightarrow> Inr (remove1 x ch @ [x])
           | Some r \<Rightarrow>
               if r \<notin> set ch then Inl DOMException
               else if r = x then Inr ch
               else Inr (takeWhile (\<lambda>y. y \<noteq> r) (remove1 x ch) @
                         x # dropWhile (\<lambda>y. y \<noteq> r) (remove1 x ch))))"

text \<open>
  \<open>removeNode(el)\<close>: \<open>parentNode(el)\<close> throws on \<open>undefined\<close>; a node with a parent is
  removed from it.
\<close>

definition removeNode :: "nat list \<Rightarrow> nat option \<Rightarrow> js_error + nat list" where
  "removeNode ch n = (case n of None \<Rightarrow> Inl TypeError | Some x \<Rightarrow> Inr (remove1 x ch))"

text \<open>
  \<open>insert(parent, elm, ref)\<close> of patch.js, for the defined parent that
  \<open>updateChildren\<close> passes: before \<open>ref\<close> when \<open>ref\<close> is a child of the parent, nothing
  when \<open>ref\<close> is defined but no child of it, appended when \<open>ref\<close> is not defined.
\<close>

definition insert_host :: "nat list \<Rightarrow> nat \<Rightarrow> nat option \<Rightarrow> js_error + nat list" where
  "insert_host ch x ref =
     (case ref of
        Some r \<Rightarrow> if r \<in> set ch then insertBefore ch (Some x) (Some r) else Inr ch
      | None \<Rightarrow> Inr (remove1 x ch @ [x]))"

section \<open>The keyed children diff\<close>

text \<open>
  What \<open>updateChildren\<close> does to the host is recorded as a list of operations, in
  order: the calls of \<open>patchVnode\<close> on a pair (the reconciliation of that pair's own
  subtree happens below this level), the direct \<open>nodeOps.insertBefore\<close> calls that
  move a host node, the calls of \<open>createElm\<close> with the host node created and the
  reference node, and the children that \<open>removeVnodes\<close> removes.
\<close>

datatype host_op =
    PatchVnode vnode vnode
  | Move nat "nat option"
  | CreateElm vnode nat "nat option"
  | RemoveVnode vnode

fun is_move :: "host_op \<Rightarrow> bool" where
  "is_move (Move _ _) = True"
| "is_move _ = False"

fun is_create :: "host_op \<Rightarrow> bool" where
  "is_create (CreateElm _ _ _) = True"
| "is_create _ = False"

fun is_remove :: "host_op \<Rightarrow> bool" where
  "is_remove (RemoveVnode _) = True"
| "is_remove _ = False"

definition at_js :: "'a list \<Rightarrow> int \<Rightarrow> 'a option" where
  "at_js xs i = (if 0 \<le> i \<and> i < int (length xs) then Some (xs ! nat i) else None)"

definition at_slot :: "'a option list \<Rightarrow> int \<Rightarrow> 'a option" where
  "at_slot xs i = (case at_js xs i of None \<Rightarrow> None | Some v \<Rightarrow> v)"

text \<open>Sequencing of steps that may throw: the first exception ends the sequence.\<close>

definition bindE :: "js_error + 'a \<Rightarrow> ('a \<Rightarrow> js_error + 'b) \<Rightarrow> js_error + 'b" where
  "bindE m f = (case m of Inl x \<Rightarrow> Inl x | Inr a \<Rightarrow> f a)"

text \<open>\<open>sameVnode\<close> on variables that may hold \<open>undefined\<close>: reading \<open>.key\<close> of it throws.\<close>

definition sameVnode_opt ::
  "env \<Rightarrow> vnode option \<Rightarrow> vnode option \<Rightarrow> js_error + bool" where
  "sameVnode_opt e a b =
     (case a of
        None \<Rightarrow> Inl TypeError
      | Some x \<Rightarrow> (case b of None \<Rightarrow> Inl TypeError | Some y \<Rightarrow> sameVnode e x y))"

text \<open>
  The key index \<open>oldKeyToIdx\<close> is a plain object (\<open>const map = {}\<close>) used as a table:
  \<open>map[key]\<close> addresses the property whose name is \<open>String(key)\<close>, so the number 1 and
  the string \<open>'1'\<close> share an entry.  A number below \<open>10^21\<close> is written in decimal.
\<close>

function decimal_nat :: "nat \<Rightarrow> string" where
  "decimal_nat n =
     (if n < 10 then [char_of (48 + n)]
      else decimal_nat (n div 10) @ [char_of (48 + n mod 10)])"
  by pat_completeness auto
termination
  by (relation "measure id") auto

declare decimal_nat.simps [simp del]

definition property_name :: "env \<Rightarrow> jsval \<Rightarrow> string" where
  "property_name e v =
     (case v of
        JUndefined \<Rightarrow> ''undefined''
      | JNull \<Rightarrow> ''null''
      | JBool b \<Rightarrow> (if b then ''true'' else ''false'')
      | JNum n \<Rightarrow>
          (if \<bar>n\<bar> < 10 ^ 21
           then (if n < 0 then CHR ''-'' # decimal_nat (nat (- n)) else decimal_nat (nat n))
           else toStringOf e v)
      | JNaN \<Rightarrow> ''NaN''
      | JStr s \<Rightarrow> s
      | JObj a \<Rightarrow> toStringOf e v
      | JFun a \<Rightarrow> toStringOf e v)"

text \<open>
  The table holds its own properties; a read of a name it does not hold goes on
  to \<open>Object.prototype\<close>, where it finds a function or an object under the names
  below and \<open>undefined\<close> under every other name.  The assignment \<open>map['__proto__'] = i\<close>
  reaches the setter of \<open>Object.prototype\<close>, which ignores a number, and creates no
  property.
\<close>

definition object_prototype_names :: "string list" where
  "object_prototype_names =
     [''constructor'', ''__defineGetter__'', ''__defineSetter__'', ''hasOwnProperty'',
      ''__lookupGetter__'', ''__lookupSetter__'', ''isPrototypeOf'', ''propertyIsEnumerable'',
      ''toString'', ''valueOf'', ''__proto__'', ''toLocaleString'']"

datatype lookup = Absent | Index int | Inherited

definition index_put :: "string \<Rightarrow> int \<Rightarrow> (string \<rightharpoonup> int) \<Rightarrow> (string \<rightharpoonup> int)" where
  "index_put name i m = (if name = ''__proto__'' then m else m(name \<mapsto> i))"

definition index_get :: "(string \<rightharpoonup> int) \<Rightarrow> string \<Rightarrow> lookup" where
  "index_get m name =
     (case m name of
        Some i \<Rightarrow> Index i
      | None \<Rightarrow> if name \<in> set object_prototype_names then Inherited else Absent)"

function createKeyToOldIdx ::
  "env \<Rightarrow> vnode option list \<Rightarrow> int \<Rightarrow> int \<Rightarrow> (string \<rightharpoonup> int) \<Rightarrow>
   js_error + (string \<rightharpoonup> int)" where
  "createKeyToOldIdx e children i endIdx m =
     (if i \<le> endIdx then
        (case at_slot children i of
           None \<Rightarrow> Inl TypeError
         | Some c \<Rightarrow>
             createKeyToOldIdx e children (i + 1) endIdx
               (if isDef (key c) then index_put (property_name e (key c)) i m else m))
      else Inr m)"
  by pat_completeness auto
termination
  by (relation "measure (\<lambda>(e, children, i, endIdx, m). nat (endIdx + 1 - i))") auto

function findIdxInOld ::
  "env \<Rightarrow> vnode \<Rightarrow> vnode option list \<Rightarrow> int \<Rightarrow> int \<Rightarrow> js_error + int option" where
  "findIdxInOld e node oldCh i end =
     (if i < end then
        (case at_slot oldCh i of
           None \<Rightarrow> findIdxInOld e node oldCh (i + 1) end
         | Some c \<Rightarrow>
             (case sameVnode e node c of
                Inl err \<Rightarrow> Inl err
              | Inr True \<Rightarrow> Inr (Some i)
              | Inr False \<Rightarrow> findIdxInOld e node oldCh (i + 1) end))
      else Inr None)"
  by pat_completeness auto
termination
  by (relation "measure (\<lambda>(e, node, oldCh, i, end). nat (end - i))") auto

declare createKeyToOldIdx.simps [simp del]
declare findIdxInOld.simps [simp del]

text \<open>
  The variables of \<open>updateChildren\<close>, the two arrays it works on, the children of
  \<open>parentElm\<close>, the next unused host handle and the operations so far.  Array reads
  outside the bounds give \<open>undefined\<close>.
\<close>

record uc =
  oldCh :: "vnode option list"
  newCh :: "vnode list"
  oldStartIdx :: int
  newStartIdx :: int
  oldEndIdx :: int
  oldStartVnode :: "vnode option"
  oldEndVnode :: "vnode option"
  newEndIdx :: int
  newStartVnode :: "vnode option"
  newEndVnode :: "vnode option"
  oldKeyToIdx :: "(string \<rightharpoonup> int) option"
  host :: "nat list"
  next_elm :: nat
  ops :: "host_op list"

text \<open>
  \<open>patchVnode(old, vnode, ..., newCh, index)\<close> as \<open>updateChildren\<close> sees it: the call is
  recorded, and on every path of \<open>patchVnode\<close> the entry \<open>newCh[index]\<close> (the node or
  its clone) ends with the host node of the old one.  What else \<open>patchVnode\<close> does
  (hooks, the update callbacks of the modules, the text and the children of the
  pair) is the reconciliation of the pair itself; \<open>updateChildren\<close> reads none of it.
\<close>

definition patchVnode :: "vnode \<Rightarrow> vnode \<Rightarrow> int \<Rightarrow> uc \<Rightarrow> uc" where
  "patchVnode old vnode index s =
     s\<lparr>newCh := (if 0 \<le> index then (newCh s)[nat index := vnode\<lparr>elm := elm old\<rparr>] else newCh s),
       ops := ops s @ [PatchVnode old vnode]\<rparr>"

text \<open>
  \<open>createElm(vnode, ..., parentElm, refElm, false, newCh, index)\<close>: a new host node is
  created for \<open>newCh[index]\<close> (the node or its clone) and handed to \<open>insert\<close>.
\<close>

definition createElm :: "vnode option \<Rightarrow> nat option \<Rightarrow> int \<Rightarrow> uc \<Rightarrow> js_error + uc" where
  "createElm v refElm index s =
     (case v of
        None \<Rightarrow> Inl TypeError
      | Some vnode \<Rightarrow>
          bindE (insert_host (host s) (next_elm s) refElm) (\<lambda>d.
            Inr (s\<lparr>newCh := (if 0 \<le> index
                               then (newCh s)[nat index := vnode\<lparr>elm := Some (next_elm s)\<rparr>]
                               else newCh s),
                    host := d,
                    next_elm := Suc (next_elm s),
                    ops := ops s @ [CreateElm vnode (next_elm s) refElm]\<rparr>)))"

function addVnodes :: "nat option \<Rightarrow> int \<Rightarrow> int \<Rightarrow> uc \<Rightarrow> js_error + uc" where
  "addVnodes refElm startIdx endIdx s =
     (if startIdx \<le> endIdx then
        bindE (createElm (at_js (newCh s) startIdx) refElm startIdx s)
          (addVnodes refElm (startIdx + 1) endIdx)
      else Inr s)"
  by pat_completeness auto
termination
  by (relation "measure (\<lambda>(refElm, startIdx, endIdx, s). nat (endIdx + 1 - startIdx))") auto

text \<open>
  \<open>removeVnodes\<close>: every defined child of the range is removed; its host node leaves
  the parent (a remove hook of a module may postpone the detachment, the model
  detaches at once).
\<close>

function removeVnodes :: "int \<Rightarrow> int \<Rightarrow> uc \<Rightarrow> js_error + uc" where
  "removeVnodes startIdx endIdx s =
     (if startIdx \<le> endIdx then
        (case at_slot (oldCh s) startIdx of
           None \<Rightarrow> removeVnodes (startIdx + 1) endIdx s
         | Some ch \<Rightarrow>
             bindE (removeNode (host s) (elm ch)) (\<lambda>d.
               removeVnodes (startIdx + 1) endIdx
                 (s\<lparr>host := d, ops := ops s @ [RemoveVnode ch]\<rparr>)))
      else Inr s)"
  by pat_completeness auto
termination
  by (relation "measure (\<lambda>(startIdx, endIdx, s). nat (endIdx + 1 - startIdx))") auto

declare addVnodes.simps [simp del]
declare removeVnodes.simps [simp del]

text \<open>The direct \<open>nodeOps.insertBefore(parentElm, elm, ref)\<close> of the loop.\<close>

definition move :: "nat option \<Rightarrow> nat option \<Rightarrow> uc \<Rightarrow> js_error + uc" where
  "move n ref s =
     bindE (insertBefore (host s) n ref) (\<lambda>d.
       Inr (s\<lparr>host := d, ops := ops s @ [Move (the n) ref]\<rparr>))"

text \<open>
  The last branch of the loop body: no probe matched.  \<open>idxInOld\<close> is looked up in
  the key index when the new start child has a key and searched by \<open>findIdxInOld\<close>
  when it has none; \<open>reuse_or_create\<close> is what the branch then does with it.  An
  \<open>idxInOld\<close> that is a function or an object of \<open>Object.prototype\<close> is defined, and
  \<open>oldCh[idxInOld]\<close> is \<open>undefined\<close>.
\<close>

definition reuse_or_create ::
  "env \<Rightarrow> bool \<Rightarrow> vnode \<Rightarrow> vnode \<Rightarrow> lookup \<Rightarrow> uc \<Rightarrow> js_error + uc" where
  "reuse_or_create e canMove oldStart newStart idxInOld s =
     (case idxInOld of
        Absent \<Rightarrow> createElm (Some newStart) (elm oldStart) (newStartIdx s) s
      | Inherited \<Rightarrow> Inl TypeError
      | Index i \<Rightarrow>
          (case at_slot (oldCh s) i of
             None \<Rightarrow> Inl TypeError
           | Some vnodeToMove \<Rightarrow>
               bindE (sameVnode e vnodeToMove newStart) (\<lambda>same.
                 if same then
                   (let s1 = (patchVnode vnodeToMove newStart (newStartIdx s) s)
                             \<lparr>oldCh := (oldCh s)[nat i := None]\<rparr>
                    in if canMove then move (elm vnodeToMove) (elm oldStart) s1
                       else Inr s1)
                 else createElm (Some newStart) (elm oldStart) (newStartIdx s) s)))"

definition fallback :: "env \<Rightarrow> bool \<Rightarrow> vnode \<Rightarrow> vnode \<Rightarrow> uc \<Rightarrow> js_error + uc" where
  "fallback e canMove oldStart newStart s =
     bindE (case oldKeyToIdx s of
              None \<Rightarrow> createKeyToOldIdx e (oldCh s) (oldStartIdx s) (oldEndIdx s) Map.empty
            | Some m \<Rightarrow> Inr m) (\<lambda>m.
     bindE (if isDef (key newStart)
            then Inr (index_get m (property_name e (key newStart)))
            else bindE (findIdxInOld e newStart (oldCh s) (oldStartIdx s) (oldEndIdx s))
                   (\<lambda>r. Inr (case r of None \<Rightarrow> Absent | Some i \<Rightarrow> Index i))) (\<lambda>idxInOld.
     bindE (reuse_or_create e canMove oldStart newStart idxInOld (s\<lparr>oldKeyToIdx := Some m\<rparr>))
       (\<lambda>s'.
     Inr (s'\<lparr>newStartIdx := newStartIdx s + 1,
             newStartVnode := at_js (newCh s') (newStartIdx s + 1)\<rparr>))))"

text \<open>One turn of the \<open>while\<close> loop, the branches in the order of the source.\<close>

definition uc_step :: "env \<Rightarrow> bool \<Rightarrow> uc \<Rightarrow> js_error + uc" where
  "uc_step e canMove s =
     (case oldStartVnode s of
        None \<Rightarrow>
          Inr (s\<lparr>oldStartIdx := oldStartIdx s + 1,
                 oldStartVnode := at_slot (oldCh s) (oldStartIdx s + 1)\<rparr>)
      | Some oldStart \<Rightarrow>
     (case oldEndVnode s of
        None \<Rightarrow>
          Inr (s\<lparr>oldEndIdx := oldEndIdx s - 1,
                 oldEndVnode := at_slot (oldCh s) (oldEndIdx s - 1)\<rparr>)
      | Some oldEnd \<Rightarrow>
     bindE (sameVnode_opt e (Some oldStart) (newStartVnode s)) (\<lambda>same1.
     if same1 then
       (let s1 = patchVnode oldStart (the (newStartVnode s)) (newStartIdx s) s
        in Inr (s1\<lparr>oldStartIdx := oldStartIdx s + 1,
                   oldStartVnode := at_slot (oldCh s1) (oldStartIdx s + 1),
                   newStartIdx := newStartIdx s + 1,
                   newStartVnode := at_js (newCh s1) (newStartIdx s + 1)\<rparr>))
     else
     bindE (sameVnode_opt e (Some oldEnd) (newEndVnode s)) (\<lambda>same2.
     if same2 then
       (let s1 = patchVnode oldEnd (the (newEndVnode s)) (newEndIdx s) s
        in Inr (s1\<lparr>oldEndIdx := oldEndIdx s - 1,
                   oldEndVnode := at_slot (oldCh s1) (oldEndIdx s - 1),
                   newEndIdx := newEndIdx s - 1,
                   newEndVnode := at_js (newCh s1) (newEndIdx s - 1)\<rparr>))
     else
     bindE (sameVnode_opt e (Some oldStart) (newEndVnode s)) (\<lambda>same3.
     if same3 then
       bindE (let s0 = patchVnode oldStart (the (newEndVnode s)) (newEndIdx s) s
              in if canMove
                 then bindE (nextSibling (host s0) (elm oldEnd)) (\<lambda>sib.
                        move (elm oldStart) sib s0)
                 else Inr s0) (\<lambda>s1.
         Inr (s1\<lparr>oldStartIdx := oldStartIdx s + 1,
                 oldStartVnode := at_slot (oldCh s1) (oldStartIdx s + 1),
                 newEndIdx := newEndIdx s - 1,
                 newEndVnode := at_js (newCh s1) (newEndIdx s - 1)\<rparr>))
     else
     bindE (sameVnode_opt e (Some oldEnd) (newStartVnode s)) (\<lambda>same4.
     if same4 then
       bindE (let s0 = patchVnode oldEnd (the (newStartVnode s)) (newStartIdx s) s
              in if canMove then move (elm oldEnd) (elm oldStart) s0 else Inr s0) (\<lambda>s1.
         Inr (s1\<lparr>oldEndIdx := oldEndIdx s - 1,
                 oldEndVnode := at_slot (oldCh s1) (oldEndIdx s - 1),
                 newStartIdx := newStartIdx s + 1,
                 newStartVnode := at_js (newCh s1) (newStartIdx s + 1)\<rparr>))
     else
       (case newStartVnode s of
          None \<Rightarrow> Inl TypeError
        | Some newStart \<Rightarrow> fallback e canMove oldStart newStart s)))))))"

text \<open>
  The loop ends: every turn moves a cursor, so the two windows together shrink.
\<close>

definition uc_measure :: "uc \<Rightarrow> nat" where
  "uc_measure s = nat (oldEndIdx s - oldStartIdx s + 1) + nat (newEndIdx s - newStartIdx s + 1)"

lemma bindE_Inr: "bindE m f = Inr y \<Longrightarrow> \<exists>x. m = Inr x \<and> f x = Inr y"
  by (cases m) (simp_all add: bindE_def)

lemma bindE_simps [simp]: "bindE (Inl x) f = Inl x" "bindE (Inr a) f = f a"
  by (simp_all add: bindE_def)

lemma patchVnode_idx [simp]:
  "oldStartIdx (patchVnode a b i s) = oldStartIdx s"
  "oldEndIdx (patchVnode a b i s) = oldEndIdx s"
  "newStartIdx (patchVnode a b i s) = newStartIdx s"
  "newEndIdx (patchVnode a b i s) = newEndIdx s"
  by (simp_all add: patchVnode_def)

lemma move_idx:
  "move n r s = Inr s' \<Longrightarrow>
     oldStartIdx s' = oldStartIdx s \<and> oldEndIdx s' = oldEndIdx s \<and>
     newStartIdx s' = newStartIdx s \<and> newEndIdx s' = newEndIdx s"
  by (auto simp: move_def dest!: bindE_Inr)

lemma createElm_idx:
  "createElm v r i s = Inr s' \<Longrightarrow>
     oldStartIdx s' = oldStartIdx s \<and> oldEndIdx s' = oldEndIdx s \<and>
     newStartIdx s' = newStartIdx s \<and> newEndIdx s' = newEndIdx s"
  by (auto simp: createElm_def split: option.splits dest!: bindE_Inr)

lemma reuse_or_create_idx:
  "reuse_or_create e c a b r s = Inr s' \<Longrightarrow>
     oldStartIdx s' = oldStartIdx s \<and> oldEndIdx s' = oldEndIdx s \<and>
     newStartIdx s' = newStartIdx s \<and> newEndIdx s' = newEndIdx s"
  unfolding reuse_or_create_def
  by (auto split: option.splits if_splits lookup.splits
      dest!: bindE_Inr createElm_idx move_idx simp: Let_def)

lemma fallback_idx:
  "fallback e c a b s = Inr s' \<Longrightarrow>
     oldStartIdx s' = oldStartIdx s \<and> oldEndIdx s' = oldEndIdx s \<and>
     newStartIdx s' = newStartIdx s + 1 \<and> newEndIdx s' = newEndIdx s"
  unfolding fallback_def
  by (auto dest!: bindE_Inr reuse_or_create_idx)

lemma uc_step_decreases:
  assumes "oldStartIdx s \<le> oldEndIdx s" "newStartIdx s \<le> newEndIdx s"
    and "uc_step e c s = Inr s'"
  shows "uc_measure s' < uc_measure s"
  using assms unfolding uc_step_def uc_measure_def
  apply (auto split: option.splits if_splits dest!: bindE_Inr fallback_idx move_idx simp: Let_def)
  apply linarith+
  done

function uc_loop :: "env \<Rightarrow> bool \<Rightarrow> uc \<Rightarrow> js_error + uc" where
  "uc_loop e canMove s =
     (if oldStartIdx s \<le> oldEndIdx s \<and> newStartIdx s \<le> newEndIdx s then
        (case uc_step e canMove s of
           Inl err \<Rightarrow> Inl err
         | Inr s' \<Rightarrow> uc_loop e canMove s')
      else Inr s)"
  by pat_completeness auto
termination
  by (relation "measure (\<lambda>(e, canMove, s). uc_measure s)") (auto intro: uc_step_decreases)

declare uc_loop.simps [simp del]

text \<open>
  \<open>updateChildren(parentElm, oldCh, newCh, insertedVnodeQueue, removeOnly)\<close>, given the
  children of \<open>parentElm\<close> and the next unused host handle; \<open>uc_init\<close> is the state
  its declarations set up.  \<open>checkDuplicateKeys\<close> only
  warns and is left out.  After the loop the rest of the new children is created
  before the host node of \<open>newCh[newEndIdx + 1]\<close> (at the end when there is none), or
  the rest of the old children is removed.
\<close>

definition uc_init :: "nat list \<Rightarrow> nat \<Rightarrow> vnode option list \<Rightarrow> vnode list \<Rightarrow> uc" where
  "uc_init parentCh fresh oldCh0 newCh0 =
     \<lparr>oldCh = oldCh0, newCh = newCh0,
      oldStartIdx = 0, newStartIdx = 0,
      oldEndIdx = int (length oldCh0) - 1,
      oldStartVnode = at_slot oldCh0 0,
      oldEndVnode = at_slot oldCh0 (int (length oldCh0) - 1),
      newEndIdx = int (length newCh0) - 1,
      newStartVnode = at_js newCh0 0,
      newEndVnode = at_js newCh0 (int (length newCh0) - 1),
      oldKeyToIdx = None, host = parentCh, next_elm = fresh, ops = []\<rparr>"

definition updateChildren ::
  "env \<Rightarrow> bool \<Rightarrow> nat list \<Rightarrow> nat \<Rightarrow> vnode option list \<Rightarrow> vnode list \<Rightarrow> js_error + uc" where
  "updateChildren e removeOnly parentCh fresh oldCh0 newCh0 =
     bindE (uc_loop e (\<not> removeOnly) (uc_init parentCh fresh oldCh0 newCh0)) (\<lambda>s.
       if oldStartIdx s > oldEndIdx s then
         addVnodes (case at_js (newCh s) (newEndIdx s + 1) of None \<Rightarrow> None | Some v \<Rightarrow> elm v)
           (newStartIdx s) (newEndIdx s) s
       else if newStartIdx s > newEndIdx s then
         removeVnodes (oldStartIdx s) (oldEndIdx s) s
       else Inr s)"

text \<open>Nodes for the scenarios below: a list item with a number as its key, and
  keyless elements with a tag.\<close>

definition li :: "int \<Rightarrow> nat option \<Rightarrow> vnode" where
  "li k h =
     \<lparr>tag = Some ''li'', data = None, key = JNum k, elm = h, isComment = False,
      asyncFactory = None, isAsyncPlaceholder = False\<rparr>"

definition element :: "string \<Rightarrow> nat option \<Rightarrow> vnode" where
  "element t h =
     \<lparr>tag = Some t, data = None, key = JUndefined, elm = h, isComment = False,
      asyncFactory = None, isAsyncPlaceholder = False\<rparr>"

text \<open>A resolved async component and a placeholder of the same factory that is
  marked as still loading.\<close>

definition resolved_async :: "nat \<Rightarrow> nat option \<Rightarrow> vnode" where
  "resolved_async f h =
     \<lparr>tag = Some ''vue-component-1-child'', data = Some \<lparr>attrs = None\<rparr>, key = JUndefined,
      elm = h, isComment = False, asyncFactory = Some f, isAsyncPlaceholder = False\<rparr>"

definition async_placeholder :: "nat \<Rightarrow> vnode" where
  "async_placeholder f =
     \<lparr>tag = None, data = None, key = JUndefined, elm = None, isComment = True,
      asyncFactory = Some f, isAsyncPlaceholder = True\<rparr>"

text \<open>
  For comparison only, not code of the program: the last branch with the bound of
  the search moved one past the end cursor, so that \<open>oldCh[oldEndIdx]\<close> is inspected
  too.
\<close>

definition fallback_to_end :: "env \<Rightarrow> bool \<Rightarrow> vnode \<Rightarrow> vnode \<Rightarrow> uc \<Rightarrow> js_error + uc" where
  "fallback_to_end e canMove oldStart newStart s =
     bindE (case oldKeyToIdx s of
              None \<Rightarrow> createKeyToOldIdx e (oldCh s) (oldStartIdx s) (oldEndIdx s) Map.empty
            | Some m \<Rightarrow> Inr m) (\<lambda>m.
     bindE (if isDef (key newStart)
            then Inr (index_get m (property_name e (key newStart)))
            else bindE (findIdxInOld e newStart (oldCh s) (oldStartIdx s) (oldEndIdx s + 1))
                   (\<lambda>r. Inr (case r of None \<Rightarrow> Absent | Some i \<Rightarrow> Index i))) (\<lambda>idxInOld.
     bindE (reuse_or_create e canMove oldStart newStart idxInOld (s\<lparr>oldKeyToIdx := Some m\<rparr>))
       (\<lambda>s'.
     Inr (s'\<lparr>newStartIdx := newStartIdx s + 1,
             newStartVnode := at_js (newCh s') (newStartIdx s + 1)\<rparr>))))"

text \<open>
  The two cursor variables of the old children hold the entries at their cursors.
\<close>

definition uc_cursors :: "uc \<Rightarrow> bool" where
  "uc_cursors s \<longleftrightarrow>
     oldStartVnode s = at_slot (oldCh s) (oldStartIdx s) \<and>
     oldEndVnode s = at_slot (oldCh s) (oldEndIdx s)"

section \<open>The scheduler (second file of src/core/observer/watcher.js)\<close>

text \<open>
  The build and configuration switches the scheduler reads: \<open>production\<close> is
  \<open>process.env.NODE_ENV === 'production'\<close>, \<open>async\<close> is \<open>config.async\<close>.
\<close>

record config =
  production :: bool
  async :: bool

definition MAX_UPDATE_COUNT :: nat where
  "MAX_UPDATE_COUNT = 100"

text \<open>
  The module state.  A watcher in the queue is referred to by its \<open>id\<close> (ids are
  given by \<open>++uid\<close>, one per watcher).  \<open>has[id]\<close> is \<open>true\<close> or \<open>null\<close>/absent, and the
  code only asks \<open>== null\<close>; \<open>circular[id] || 0\<close> is a count.  Three fields record
  what the module does to the outside: \<open>ticks\<close> counts the
  \<open>nextTick(flushSchedulerQueue)\<close> registrations, \<open>runs\<close> lists the watchers whose
  \<open>run()\<close> the flush called, in order, and \<open>warned\<close> lists the watchers named in the
  infinite-loop warning.  The queue of activated keep-alive components is left out.
\<close>

record sched =
  queue :: "nat list"
  has :: "nat \<Rightarrow> bool"
  circular :: "nat \<Rightarrow> nat"
  waiting :: bool
  flushing :: bool
  index :: nat
  ticks :: nat
  runs :: "nat list"
  warned :: "nat list"

text \<open>\<open>while (i > index && queue[i].id > watcher.id) i--\<close>, giving the final \<open>i\<close>.\<close>

function scan_back :: "nat list \<Rightarrow> nat \<Rightarrow> nat \<Rightarrow> int \<Rightarrow> int" where
  "scan_back q idx w i =
     (if i > int idx \<and> q ! nat i > w then scan_back q idx w (i - 1) else i)"
  by pat_completeness auto
termination
  by (relation "measure (\<lambda>(q, idx, w, i). nat i)") auto

declare scan_back.simps [simp del]

text \<open>
  \<open>queueWatcher\<close>.  Its last act may be a call of \<open>flushSchedulerQueue\<close>: at once
  (development build with \<open>config.async\<close> off), which is returned as \<open>FlushNow\<close> beside
  the state at that call, or through \<open>nextTick\<close>, which is counted in \<open>ticks\<close>.
\<close>

datatype flush_call = NoCall | FlushNow

definition queueWatcher :: "config \<Rightarrow> nat \<Rightarrow> sched \<Rightarrow> sched \<times> flush_call" where
  "queueWatcher cfg w s =
     (if \<not> has s w then
        (let s1 = s\<lparr>has := (has s)(w := True)\<rparr>;
             s2 = (if \<not> flushing s1 then s1\<lparr>queue := queue s1 @ [w]\<rparr>
                   else (let i = scan_back (queue s1) (index s1) w (int (length (queue s1)) - 1)
                         in s1\<lparr>queue := take (nat (i + 1)) (queue s1) @
                                         w # drop (nat (i + 1)) (queue s1)\<rparr>))
         in if \<not> waiting s2 then
              (if \<not> production cfg \<and> \<not> async cfg then (s2\<lparr>waiting := True\<rparr>, FlushNow)
               else (s2\<lparr>waiting := True, ticks := ticks s2 + 1\<rparr>, NoCall))
            else (s2, NoCall))
      else (s, NoCall))"

text \<open>The position \<open>i + 1\<close> at which a flushing scheduler splices the watcher in.\<close>

definition insert_pos :: "sched \<Rightarrow> nat \<Rightarrow> nat" where
  "insert_pos s w = nat (scan_back (queue s) (index s) w (int (length (queue s)) - 1) + 1)"

text \<open>
  What the code of a watcher does when the flush calls it is outside the scheduler:
  \<open>on_before\<close> and \<open>on_run\<close> give, for the state \<open>'w\<close> of the rest of the program, the
  watchers that \<open>watcher.before()\<close> and \<open>watcher.run()\<close> hand to \<open>queueWatcher\<close> (by
  changing state that they depend on), in order; \<open>on_run\<close> also tells whether the
  run throws.  A watcher without a \<open>before\<close> hook hands over nothing there.
\<close>

record 'w behaviour =
  on_before :: "'w \<Rightarrow> nat \<Rightarrow> 'w \<times> nat list"
  on_run :: "'w \<Rightarrow> nat \<Rightarrow> 'w \<times> nat list \<times> bool"

text \<open>
  How the loop of \<open>flushSchedulerQueue\<close> can end: it runs off the queue, it leaves by
  \<open>break\<close> after the warning, a run throws, or (only when entered with \<open>waiting\<close>
  false, which \<open>queueWatcher\<close> never does) a \<open>queueWatcher\<close> inside it calls
  \<open>flushSchedulerQueue\<close> again, which this model does not follow.
\<close>

datatype flush_end = Completed | Stopped | Threw | Reentered

fun queue_all :: "config \<Rightarrow> nat list \<Rightarrow> sched \<Rightarrow> sched option" where
  "queue_all cfg [] s = Some s"
| "queue_all cfg (w # ws) s =
     (case queueWatcher cfg w s of
        (s', FlushNow) \<Rightarrow> None
      | (s', NoCall) \<Rightarrow> queue_all cfg ws s')"

text \<open>The body of the \<open>for\<close> loop; \<open>Some\<close> ending when the loop is left.\<close>

definition flush_body ::
  "config \<Rightarrow> 'w behaviour \<Rightarrow> 'w \<Rightarrow> sched \<Rightarrow> flush_end option \<times> 'w \<times> sched" where
  "flush_body cfg bh w s =
     (let watcher = queue s ! index s;
          (w1, notified1) = on_before bh w watcher
      in case queue_all cfg notified1 s of
           None \<Rightarrow> (Some Reentered, w1, s)
         | Some s1 \<Rightarrow>
             (let s2 = s1\<lparr>has := (has s1)(watcher := False), runs := runs s1 @ [watcher]\<rparr>;
                  (w2, notified2, threw) = on_run bh w1 watcher
              in case queue_all cfg notified2 s2 of
                   None \<Rightarrow> (Some Reentered, w2, s2)
                 | Some s3 \<Rightarrow>
                     if threw then (Some Threw, w2, s3)
                     else if \<not> production cfg \<and> has s3 watcher then
                       (let s4 = s3\<lparr>circular :=
                                     (circular s3)(watcher := circular s3 watcher + 1)\<rparr>
                        in if circular s4 watcher > MAX_UPDATE_COUNT
                           then (Some Stopped, w2, s4\<lparr>warned := warned s4 @ [watcher]\<rparr>)
                           else (None, w2, s4))
                     else (None, w2, s3)))"

text \<open>
  \<open>for (index = 0; index < queue.length; index++)\<close>.  The queue can grow while the
  loop runs, so the loop need not end: not returning is the value \<open>None\<close>.
\<close>

partial_function (option) flush_loop ::
  "config \<Rightarrow> 'w behaviour \<Rightarrow> 'w \<Rightarrow> sched \<Rightarrow> (flush_end \<times> 'w \<times> sched) option" where
  "flush_loop cfg bh w s =
     (if index s < length (queue s) then
        (case flush_body cfg bh w s of
           (Some ending, w', s') \<Rightarrow> Some (ending, w', s')
         | (None, w', s') \<Rightarrow> flush_loop cfg bh w' (s'\<lparr>index := index s' + 1\<rparr>))
      else Some (Completed, w, s))"

definition resetSchedulerState :: "config \<Rightarrow> sched \<Rightarrow> sched" where
  "resetSchedulerState cfg s =
     s\<lparr>index := 0, queue := [], has := (\<lambda>_. False),
       circular := (if production cfg then circular s else (\<lambda>_. 0)),
       waiting := False, flushing := False\<rparr>"

text \<open>
  \<open>flushSchedulerQueue\<close> up to \<open>resetSchedulerState()\<close>; the hooks it calls afterwards
  belong to the component lifecycle.  An exception leaves the function before the
  reset.
\<close>

definition flushSchedulerQueue ::
  "config \<Rightarrow> 'w behaviour \<Rightarrow> 'w \<Rightarrow> sched \<Rightarrow> (flush_end \<times> 'w \<times> sched) option" where
  "flushSchedulerQueue cfg bh w s =
     (case flush_loop cfg bh w (s\<lparr>flushing := True, queue := sort (queue s), index := 0\<rparr>) of
        None \<Rightarrow> None
      | Some (ending, w', s') \<Rightarrow>
          Some (ending, w',
                if ending = Threw \<or> ending = Reentered then s' else resetSchedulerState cfg s'))"

text \<open>
  The loop stands at a watcher \<open>W\<close>: the entries before the running index are
  \<open>done\<close>, the entries after it are \<open>rest\<close>.
\<close>

definition at_watcher :: "sched \<Rightarrow> nat list \<Rightarrow> nat \<Rightarrow> nat list \<Rightarrow> bool" where
  "at_watcher s done W rest \<longleftrightarrow>
     flushing s \<and> waiting s \<and> queue s = done @ W # rest \<and> index s = length done"



definition pending :: "nat list \<Rightarrow> sched" where
  "pending q =
     \<lparr>queue = q, has = (\<lambda>x. x \<in> set q), circular = (\<lambda>_. 0), waiting = True,
      flushing = False, index = 0, ticks = 1, runs = [], warned = []\<rparr>"

definition flushing_at_2 :: "nat list \<Rightarrow> sched" where
  "flushing_at_2 q = (pending q)\<lparr>flushing := True, index := 1\<rparr>"

text \<open>Two watchers \<open>A\<close> and \<open>B\<close>, each of which hands the other to \<open>queueWatcher\<close> when
  it runs, and a watcher \<open>W\<close> that hands over itself.\<close>

definition pair_then_self :: "nat \<Rightarrow> nat \<Rightarrow> nat \<Rightarrow> unit behaviour" where
  "pair_then_self A B W =
     \<lparr>on_before = (\<lambda>w x. (w, [])),
      on_run = (\<lambda>w x. (w, if x = A then [B] else if x = B then [A]
                          else if x = W then [W] else [], False))\<rparr>"

section \<open>Watchers (first file of src/core/observer/watcher.js)\<close>

text \<open>
  What a watcher does that the rest of the program can see: its getter is called,
  an error is handed to \<open>handleError\<close> (directly, or by \<open>invokeWithErrorHandling\<close>), its
  callback is called with the new and the old value.
\<close>

datatype wevent =
    GetterCalled nat
  | ErrorHandled nat jsval
  | CallbackCalled nat jsval jsval

text \<open>
  The fields of a Watcher.  \<open>wid\<close> is \<open>id\<close> and \<open>wvalue\<close> is \<open>value\<close>; a Dep in \<open>deps\<close> and
  \<open>newDeps\<close> is referred to by its \<open>id\<close>.  \<open>getter\<close>, \<open>cb\<close>, \<open>before\<close> and \<open>vm\<close> are code and
  objects outside the model.
\<close>

record watcher =
  wid :: nat
  deep :: bool
  user :: bool
  lazy :: bool
  sync :: bool
  dirty :: bool
  active :: bool
  deps :: "nat list"
  newDeps :: "nat list"
  depIds :: "nat set"
  newDepIds :: "nat set"
  wvalue :: jsval

text \<open>
  The state around a watcher: the stack behind \<open>Dep.target\<close> (top first), the
  subscriber list of every Dep, of the watcher's \<open>vm\<close> the list \<open>_watchers\<close> and
  the flag \<open>_isBeingDestroyed\<close>, and the module variable \<open>seenObjects\<close> of
  \<open>traverse\<close> (the Dep ids it holds); \<open>events\<close> is the record of what happened.
\<close>

record world =
  targetStack :: "nat list"
  subs :: "nat \<Rightarrow> nat list"
  vmWatchers :: "nat list"
  isBeingDestroyed :: bool
  seenObjects :: "nat set"
  events :: "wevent list"

text \<open>
  Modelled from the spec: \<open>pushTarget\<close> and \<open>popTarget\<close> of \<open>observer/dep.js\<close>, which is
  not among the sources.  The pointer to the observer currently evaluating is a
  stack with push and pop.
\<close>

definition pushTarget :: "nat \<Rightarrow> world \<Rightarrow> world" where
  "pushTarget w st = st\<lparr>targetStack := w # targetStack st\<rparr>"

definition popTarget :: "world \<Rightarrow> world" where
  "popTarget st = st\<lparr>targetStack := tl (targetStack st)\<rparr>"

text \<open>
  Modelled from the spec: \<open>addSub\<close> and \<open>removeSub\<close> of the Dep class
  (\<open>observer/dep.js\<close>).  Subscribing adds an observer if it is not already present;
  unsubscribing removes it.
\<close>

definition addSub :: "nat \<Rightarrow> nat \<Rightarrow> world \<Rightarrow> world" where
  "addSub d w st =
     st\<lparr>subs := (subs st)(d := (if w \<in> set (subs st d) then subs st d else subs st d @ [w]))\<rparr>"

definition removeSub :: "nat \<Rightarrow> nat \<Rightarrow> world \<Rightarrow> world" where
  "removeSub d w st = st\<lparr>subs := (subs st)(d := remove1 w (subs st d))\<rparr>"

text \<open>
  The objects that \<open>traverse\<close> walks.  An object or array is known by what the walk
  asks of it: whether it is frozen, whether it is a VNode, the id of
  \<open>__ob__.dep\<close> when it has an \<open>__ob__\<close>, and its entries, which are the elements of an
  array or the properties listed by \<open>Object.keys\<close>, in that order.  Reading an entry
  runs the getter of the property, code outside the model: \<open>reads\<close> are the Deps
  whose \<open>depend()\<close> reaches \<open>addDep\<close> of the evaluating watcher meanwhile, in order,
  and \<open>yields\<close> is the value read (\<open>Inr\<close>) or the exception thrown (\<open>Inl\<close>).
\<close>

record slot =
  reads :: "nat list"
  yields :: "jsval + jsval"

record jsobject =
  isFrozen :: bool
  isVNode :: bool
  obDep :: "nat option"
  slots :: "slot list"

text \<open>
  One evaluation of the getter, seen from the watcher: the Deps whose \<open>depend()\<close>
  reaches \<open>addDep\<close> while the getter runs, in order; whether the getter returns a
  value (\<open>Inr\<close>) or throws (\<open>Inl\<close>); the objects behind the addresses when
  \<open>traverse(value)\<close> runs, the number of calls the call stack still takes then and
  the RangeError thrown by the call that exceeds it; and what the callback throws,
  if it is called and throws.
\<close>

record evaluation =
  touched :: "nat list"
  outcome :: "jsval + jsval"
  heap :: "nat \<Rightarrow> jsobject"
  frames :: nat
  overflow :: jsval
  cb_throws :: "jsval option"

definition addDep :: "nat \<Rightarrow> watcher \<times> world \<Rightarrow> watcher \<times> world" where
  "addDep d p =
     (case p of (w, st) \<Rightarrow>
        if d \<notin> newDepIds w then
          (w\<lparr>newDepIds := insert d (newDepIds w), newDeps := newDeps w @ [d]\<rparr>,
           if d \<notin> depIds w then addSub d (wid w) st else st)
        else (w, st))"

text \<open>\<open>while (i--)\<close> over \<open>this.deps\<close> in \<open>cleanupDeps\<close>, \<open>i\<close> being the count left.\<close>

primrec cleanup_loop :: "nat \<Rightarrow> watcher \<Rightarrow> world \<Rightarrow> world" where
  "cleanup_loop 0 w st = st"
| "cleanup_loop (Suc i) w st =
     cleanup_loop i w
       (if deps w ! i \<notin> newDepIds w then removeSub (deps w ! i) (wid w) st else st)"

definition cleanupDeps :: "watcher \<Rightarrow> world \<Rightarrow> watcher \<times> world" where
  "cleanupDeps w st =
     (w\<lparr>depIds := newDepIds w, newDepIds := {}, deps := newDeps w, newDeps := []\<rparr>,
      cleanup_loop (length (deps w)) w st)"

text \<open>
  \<open>_traverse(val, seen)\<close> of \<open>traverse.js\<close>, with the calls its stack still takes as
  the first argument: a call beyond them throws.  The result is the exception that
  leaves the call, if any, with the watcher and the world as they are then.  Only
  a reference to an object or array passes the first test (\<open>Array.isArray\<close> and
  \<open>isObject\<close> are false on every other value).  \<open>traverse_slots\<close> is the loop
  \<open>while (i--) _traverse(val[i], seen)\<close>, respectively over \<open>val[keys[i]]\<close>, given
  the entries still to read, last entry first.
\<close>

fun traverse_rec ::
    "nat \<Rightarrow> evaluation \<Rightarrow> jsval \<Rightarrow> watcher \<times> world \<Rightarrow> jsval option \<times> watcher \<times> world"
  and traverse_slots ::
    "nat \<Rightarrow> evaluation \<Rightarrow> slot list \<Rightarrow> watcher \<times> world \<Rightarrow> jsval option \<times> watcher \<times> world"
where
  "traverse_rec 0 ev v p = (Some (overflow ev), p)"
| "traverse_rec (Suc n) ev v p =
     (case v of
        JObj a \<Rightarrow>
          if isFrozen (heap ev a) \<or> isVNode (heap ev a) then (None, p)
          else
            (case obDep (heap ev a) of
               Some depId \<Rightarrow>
                 if depId \<in> seenObjects (snd p) then (None, p)
                 else traverse_slots n ev (rev (slots (heap ev a)))
                        (fst p, (snd p)\<lparr>seenObjects := insert depId (seenObjects (snd p))\<rparr>)
             | None \<Rightarrow> traverse_slots n ev (rev (slots (heap ev a))) p)
      | _ \<Rightarrow> (None, p))"
| "traverse_slots n ev [] p = (None, p)"
| "traverse_slots n ev (sl # rest) p =
     (case yields sl of
        Inl e \<Rightarrow> (Some e, fold addDep (reads sl) p)
      | Inr v \<Rightarrow>
          (case traverse_rec n ev v (fold addDep (reads sl) p) of
             (Some e, p') \<Rightarrow> (Some e, p')
           | (None, p') \<Rightarrow> traverse_slots n ev rest p'))"

text \<open>
  What collecting Deps leaves alone: of the world the target stack and the events,
  of the watcher everything but \<open>newDeps\<close> and \<open>newDepIds\<close>.
\<close>

definition untouched ::
  "watcher \<times> world \<Rightarrow>
   nat list \<times> wevent list \<times> nat list \<times> nat set \<times> nat \<times> bool \<times> bool \<times> bool \<times> jsval" where
  "untouched p =
     (targetStack (snd p), events (snd p), deps (fst p), depIds (fst p), wid (fst p),
      user (fst p), deep (fst p), active (fst p), wvalue (fst p))"

text \<open>
  \<open>traverse(val)\<close>: \<open>_traverse(val, seenObjects)\<close>, then \<open>seenObjects.clear()\<close>, which is
  not reached when \<open>_traverse\<close> throws.
\<close>

definition traverse ::
  "evaluation \<Rightarrow> jsval \<Rightarrow> watcher \<times> world \<Rightarrow> jsval option \<times> watcher \<times> world" where
  "traverse ev v p =
     (case traverse_rec (frames ev) ev v p of
        (Some e, p') \<Rightarrow> (Some e, p')
      | (None, w', st') \<Rightarrow> (None, w', st'\<lparr>seenObjects := {}\<rparr>))"

text \<open>
  \<open>Watcher.get\<close>.  \<open>try_getter\<close> is \<open>pushTarget(this)\<close> with the \<open>try\<close> and \<open>catch\<close>
  blocks: the watcher and the world when the \<open>finally\<close> block is entered.  The
  result of \<open>get\<close> is \<open>Inr\<close> the value returned or \<open>Inl\<close> the exception that leaves
  it.  The \<open>finally\<close> block runs on every path; an exception thrown by
  \<open>traverse(value)\<close> in it leaves \<open>get\<close> at once, in place of the exception of the
  getter if one was on its way, and \<open>popTarget()\<close> and \<open>cleanupDeps()\<close> are not
  reached.
\<close>

definition try_getter :: "watcher \<Rightarrow> evaluation \<Rightarrow> world \<Rightarrow> watcher \<times> world" where
  "try_getter w ev st =
     (let st1 = pushTarget (wid w) st;
          p2 = fold addDep (touched ev) (w, st1\<lparr>events := events st1 @ [GetterCalled (wid w)]\<rparr>)
      in case outcome ev of
           Inl e \<Rightarrow>
             if user w
             then (fst p2, (snd p2)\<lparr>events := events (snd p2) @ [ErrorHandled (wid w) e]\<rparr>)
             else p2
         | Inr x \<Rightarrow> p2)"

definition get :: "watcher \<Rightarrow> evaluation \<Rightarrow> world \<Rightarrow> (jsval + jsval) \<times> watcher \<times> world" where
  "get w ev st =
     (let p3 = try_getter w ev st;
          v = (case outcome ev of Inl e \<Rightarrow> JUndefined | Inr x \<Rightarrow> x);
          leaves = (case outcome ev of
                      Inl e \<Rightarrow> if user w then Inr JUndefined else Inl e
                    | Inr x \<Rightarrow> Inr x)
      in if deep w then
           (case traverse ev v p3 of
              (Some e, p4) \<Rightarrow> (Inl e, p4)
            | (None, p4) \<Rightarrow> (leaves, cleanupDeps (fst p4) (popTarget (snd p4))))
         else (leaves, cleanupDeps (fst p3) (popTarget (snd p3))))"

text \<open>
  \<open>Watcher.run\<close>.  \<open>isObject\<close> comes from \<open>util/index\<close>, which is not among the
  sources; it is a parameter.  Modelled from the spec: \<open>invokeWithErrorHandling\<close>
  (also of \<open>util\<close>) calls the callback, catches what it throws and hands it to the
  error handler.  The result of \<open>run\<close> is the exception that leaves it, if any.
\<close>

definition run ::
  "(jsval \<Rightarrow> bool) \<Rightarrow> watcher \<Rightarrow> evaluation \<Rightarrow> world \<Rightarrow> jsval option \<times> watcher \<times> world" where
  "run isObject w ev st =
     (if active w then
        (case get w ev st of
           (Inl e, w', st') \<Rightarrow> (Some e, w', st')
         | (Inr v, w', st') \<Rightarrow>
             if \<not> strict_eq v (wvalue w') \<or> isObject v \<or> deep w' then
               (let oldValue = wvalue w';
                    w2 = w'\<lparr>wvalue := v\<rparr>;
                    st2 = st'\<lparr>events := events st' @ [CallbackCalled (wid w') v oldValue]\<rparr>
                in case cb_throws ev of
                     None \<Rightarrow> (None, w2, st2)
                   | Some e \<Rightarrow>
                       if user w2
                       then (None, w2, st2\<lparr>events := events st2 @ [ErrorHandled (wid w2) e]\<rparr>)
                       else (Some e, w2, st2))
             else (None, w', st'))
      else (None, w, st))"

text \<open>
  \<open>Watcher.update\<close>, on the watcher, the scheduler and the world.  The result tells
  what was thrown and whether \<open>queueWatcher\<close> called \<open>flushSchedulerQueue\<close>.
\<close>

definition update ::
  "config \<Rightarrow> (jsval \<Rightarrow> bool) \<Rightarrow> evaluation \<Rightarrow> watcher \<times> sched \<times> world \<Rightarrow>
   (jsval option \<times> flush_call) \<times> watcher \<times> sched \<times> world" where
  "update cfg isObject ev x =
     (case x of (w, s, st) \<Rightarrow>
        if lazy w then ((None, NoCall), w\<lparr>dirty := True\<rparr>, s, st)
        else if sync w then
          (case run isObject w ev st of (r, w', st') \<Rightarrow> ((r, NoCall), w', s, st'))
        else
          (case queueWatcher cfg (wid w) s of (s', c) \<Rightarrow> ((None, c), w, s', st)))"

text \<open>
  \<open>while (i--)\<close> over \<open>this.deps\<close> in \<open>teardown\<close>; \<open>remove(arr, item)\<close> of \<open>util\<close>
  takes the first occurrence of the item out of the array.
\<close>

primrec teardown_loop :: "nat \<Rightarrow> watcher \<Rightarrow> world \<Rightarrow> world" where
  "teardown_loop 0 w st = st"
| "teardown_loop (Suc i) w st = teardown_loop i w (removeSub (deps w ! i) (wid w) st)"

definition teardown :: "watcher \<Rightarrow> world \<Rightarrow> watcher \<times> world" where
  "teardown w st =
     (if active w then
        (w\<lparr>active := False\<rparr>,
         teardown_loop (length (deps w)) w
           (if \<not> isBeingDestroyed st
            then st\<lparr>vmWatchers := remove1 (wid w) (vmWatchers st)\<rparr> else st))
      else (w, st))"

text \<open>
  What can happen to a watcher from some moment on: a Dep it subscribed to calls
  \<open>update()\<close>; the flush of the scheduler reaches it and calls \<open>run()\<close> (the state of
  the scheduler goes on as the flush leaves it, which is given with the step);
  \<open>teardown()\<close> is called.  \<open>after\<close> applies a sequence of such steps in order.
\<close>

datatype wop = Invalidate evaluation | SchedulerRun evaluation sched | Teardown

fun apply_op ::
  "config \<Rightarrow> (jsval \<Rightarrow> bool) \<Rightarrow> wop \<Rightarrow> watcher \<times> sched \<times> world \<Rightarrow>
   watcher \<times> sched \<times> world" where
  "apply_op cfg isObject (Invalidate ev) x = snd (update cfg isObject ev x)"
| "apply_op cfg isObject (SchedulerRun ev s') (w, s, st) =
     (case run isObject w ev st of (r, w', st') \<Rightarrow> (w', s', st'))"
| "apply_op cfg isObject Teardown (w, s, st) =
     (case teardown w st of (w', st') \<Rightarrow> (w', s, st'))"

definition after ::
  "config \<Rightarrow> (jsval \<Rightarrow> bool) \<Rightarrow> wop list \<Rightarrow> watcher \<times> sched \<times> world \<Rightarrow>
   watcher \<times> sched \<times> world" where
  "after cfg isObject steps x = fold (apply_op cfg isObject) steps x"

text \<open>The usual \<open>isObject\<close>: \<open>obj !== null && typeof obj === 'object'\<close>.\<close>

definition isObject_js :: "jsval \<Rightarrow> bool" where
  "isObject_js v = (case v of JObj a \<Rightarrow> True | _ \<Rightarrow> False)"

text \<open>
  The watcher and the world when \<open>get\<close> has collected its Deps: when the \<open>finally\<close>
  block reaches \<open>popTarget()\<close>, or when \<open>traverse\<close> throws.  The new Deps are in
  \<open>newDeps\<close> and \<open>newDepIds\<close> of that watcher.
\<close>

definition collected :: "watcher \<Rightarrow> evaluation \<Rightarrow> world \<Rightarrow> watcher \<times> world" where
  "collected w ev st =
     (if deep w
      then snd (traverse ev (case outcome ev of Inl e \<Rightarrow> JUndefined | Inr x \<Rightarrow> x)
                  (try_getter w ev st))
      else try_getter w ev st)"

text \<open>The exception that leaves \<open>traverse(value)\<close> in \<open>get\<close>, if the watcher is deep
  and there is one.\<close>

definition traverse_throws :: "watcher \<Rightarrow> evaluation \<Rightarrow> world \<Rightarrow> jsval option" where
  "traverse_throws w ev st =
     (if deep w
      then fst (traverse ev (case outcome ev of Inl e \<Rightarrow> JUndefined | Inr x \<Rightarrow> x)
                  (try_getter w ev st))
      else None)"

fun is_callback :: "wevent \<Rightarrow> bool" where
  "is_callback (CallbackCalled _ _ _) = True"
| "is_callback _ = False"

text \<open>A user watcher with id 7 that holds the Deps 4 and 2 and the value 5, its
  world, and evaluations of its getter for the scenarios.\<close>

definition watcher7 :: watcher where
  "watcher7 =
     \<lparr>wid = 7, deep = False, user = True, lazy = False, sync = False, dirty = False,
      active = True, deps = [4, 2], newDeps = [], depIds = {4, 2}, newDepIds = {},
      wvalue = JNum 5\<rparr>"

definition world7 :: world where
  "world7 =
     \<lparr>targetStack = [], subs = (\<lambda>d. if d = 4 \<or> d = 2 then [7] else []), vmWatchers = [7],
      isBeingDestroyed = False, seenObjects = {}, events = []\<rparr>"

definition plain_object :: jsobject where
  "plain_object = \<lparr>isFrozen = False, isVNode = False, obDep = None, slots = []\<rparr>"

definition throwing :: evaluation where
  "throwing =
     \<lparr>touched = [2, 3], outcome = Inl (JStr ''boom''), heap = (\<lambda>a. plain_object),
      frames = 1000, overflow = JStr ''RangeError'', cb_throws = None\<rparr>"

definition returning :: "jsval \<Rightarrow> evaluation" where
  "returning v =
     \<lparr>touched = [2], outcome = Inr v, heap = (\<lambda>a. plain_object),
      frames = 1000, overflow = JStr ''RangeError'', cb_throws = None\<rparr>"

text \<open>
  A deep watcher and two objects for it to watch: one whose only property has a
  getter that registers Dep 3 and throws, and one without \<open>__ob__\<close> whose only
  property holds the object itself.
\<close>

definition deep_watcher7 :: watcher where
  "deep_watcher7 = watcher7\<lparr>deep := True\<rparr>"

definition throwing_property :: "nat \<Rightarrow> jsobject" where
  "throwing_property a =
     \<lparr>isFrozen = False, isVNode = False, obDep = Some 5,
      slots = [\<lparr>reads = [3], yields = Inl (JStr ''boom'')\<rparr>]\<rparr>"

definition self_reference :: "nat \<Rightarrow> jsobject" where
  "self_reference a =
     \<lparr>isFrozen = False, isVNode = False, obDep = None,
      slots = [\<lparr>reads = [], yields = Inr (JObj a)\<rparr>]\<rparr>"

definition returning_object :: "(nat \<Rightarrow> jsobject) \<Rightarrow> nat \<Rightarrow> evaluation" where
  "returning_object h n =
     \<lparr>touched = [2], outcome = Inr (JObj 9), heap = h,
      frames = n, overflow = JStr ''RangeError'', cb_throws = None\<rparr>"

text \<open>A development build with asynchronous flushing.\<close>

definition dev_cfg :: config where
  "dev_cfg = \<lparr>production = False, async = True\<rparr>"



section \<open>Intercepted array methods (src/core/observer/array.js)\<close>

text \<open>The seven entries of \<open>methodsToPatch\<close>.\<close>

datatype array_method = Push | Pop | Shift | Unshift | Splice | Sort | Reverse



text \<open>An exception is a value that code threw or an error of the language.\<close>

datatype thrown = Thrown jsval | Raised js_error






section \<open>The sameness predicate\<close>

text \<open>
  C1, as the code has it.  \<open>sameVnode(a, b)\<close> is true exactly when the keys are
  equal (\<open>===\<close>), the async factories are the same object, and either the tags, the
  comment flags and the presence of a data bag agree and, for the tag \<open>input\<close>, the
  two type values are equal (\<open>===\<close>) or are both text input types; or \<open>a\<close> is an async
  placeholder and \<open>b\<close> has a factory with no recorded error.
\<close>

theorem sameVnode_exactly:
  "sameVnode e a b = Inr True \<longleftrightarrow>
      strict_eq (key a) (key b) \<and> asyncFactory a = asyncFactory b \<and>
      ((tag a = tag b \<and> isComment a = isComment b \<and>
        (data a = None \<longleftrightarrow> data b = None) \<and>
        (tag a = Some ''input'' \<longrightarrow>
           strict_eq (inputType a) (inputType b) \<or>
           (isTextInputType e (inputType a) \<and> isTextInputType e (inputType b))))
       \<or> (isAsyncPlaceholder a \<and> (\<exists>f. asyncFactory b = Some f \<and> \<not> factoryError e f)))"
  by (auto simp: sameVnode_def sameInputType_def Let_def split: option.splits)

theorem sameVnode_exactly_witness:
  "sameVnode web_env (input_of_type ''text'') (input_of_type ''password'') = Inr True
   \<and> sameVnode web_env (input_of_type ''text'') (input_of_type ''checkbox'') = Inr False"
  using sameVnode_exactly [of web_env "input_of_type ''text''" "input_of_type ''password''"]
    sameVnode_exactly [of web_env "input_of_type ''text''" "input_of_type ''checkbox''"]
  by (simp add: sameVnode_def sameInputType_def inputType_def input_of_type_def web_env_def
      web_isTextInputType_def strict_eq_def)

text \<open>
  The claim as stated asks for equal \<open>type\<close> attributes on \<open>input\<close> elements.  A text
  input and a password input are the same node for the code.
\<close>

theorem sameVnode_input_types_differ:
  "sameVnode web_env (input_of_type ''text'') (input_of_type ''password'') = Inr True
   \<and> tag (input_of_type ''text'') = Some ''input''
   \<and> inputType (input_of_type ''text'') = JStr ''text''
   \<and> inputType (input_of_type ''password'') = JStr ''password''
   \<and> JStr ''text'' \<noteq> JStr ''password''"
  by (simp add: sameVnode_def sameInputType_def inputType_def input_of_type_def web_env_def
      web_isTextInputType_def strict_eq_def)

text \<open>
  When \<open>sameVnode\<close> is not true it is false, except that it throws a TypeError when
  the keys and factories agree, the first alternative fails, \<open>a\<close> is an async
  placeholder and \<open>b\<close> has no factory to read \<open>error\<close> from.  Two nodes with the key
  \<open>NaN\<close> are never the same node.
\<close>

lemma sameVnode_throws:
  "sameVnode e a b = Inl err \<longleftrightarrow>
      err = TypeError \<and> strict_eq (key a) (key b) \<and> asyncFactory a = asyncFactory b \<and>
      \<not> (tag a = tag b \<and> isComment a = isComment b \<and>
         (data a = None \<longleftrightarrow> data b = None) \<and> sameInputType e a b) \<and>
      isAsyncPlaceholder a \<and> asyncFactory b = None"
  by (auto simp: sameVnode_def split: option.splits)

lemma sameVnode_NaN_key: "key a = JNaN \<Longrightarrow> sameVnode e a b = Inr False"
  by (simp add: sameVnode_def strict_eq_def)

section \<open>Scenarios of the keyed children diff\<close>

lemma sameVnode_key_neq: "\<not> strict_eq (key a) (key b) \<Longrightarrow> sameVnode e a b = Inr False"
  by (simp add: sameVnode_def)

lemmas uc_eval = uc_step_def sameVnode_opt_def patchVnode_def move_def insertBefore_def
  at_js_def at_slot_def Let_def createElm_def insert_host_def nextSibling_def removeNode_def

lemma li_same: "sameVnode e (li k h) (li k h') = Inr True"
  by (simp add: sameVnode_def sameInputType_def li_def strict_eq_def)

lemma li_fields [simp]: "key (li k h) = JNum k" "elm (li k h) = h"
  by (simp_all add: li_def)

text \<open>
  C2.  Old children \<open>[a, b, c]\<close> with keys 1, 2, 3 and host nodes \<open>ea, eb, ec\<close>, new
  children \<open>[c', a', b']\<close> with keys 3, 1, 2, each new child the same node as the old
  child of its key: \<open>updateChildren\<close> (moves allowed) patches the three pairs and
  performs one move, the host node of \<open>c\<close> inserted before the host node of \<open>a\<close>;
  it creates nothing and removes nothing, and the parent then holds \<open>ec, ea, eb\<close>.
\<close>

theorem updateChildren_rotation_one_move:
  assumes keys: "key a = JNum 1" "key b = JNum 2" "key c = JNum 3"
      "key a' = JNum 1" "key b' = JNum 2" "key c' = JNum 3"
    and same: "sameVnode e a a' = Inr True" "sameVnode e b b' = Inr True"
      "sameVnode e c c' = Inr True"
    and elms: "elm a = Some ea" "elm b = Some eb" "elm c = Some ec" "distinct [ea, eb, ec]"
  shows "\<exists>s. updateChildren e False [ea, eb, ec] fresh [Some a, Some b, Some c] [c', a', b'] = Inr s
      \<and> ops s = [PatchVnode c c', Move ec (Some ea), PatchVnode a a', PatchVnode b b']
      \<and> length (filter is_move (ops s)) = 1
      \<and> filter is_create (ops s) = []
      \<and> filter is_remove (ops s) = []
      \<and> host s = [ec, ea, eb]"
proof -
  have neq: "sameVnode e a c' = Inr False" "sameVnode e c b' = Inr False"
      "sameVnode e a b' = Inr False"
    using keys by (simp_all add: sameVnode_key_neq strict_eq_def)
  show ?thesis
    using elms
    apply (simp add: updateChildren_def uc_init_def at_js_def at_slot_def)
    apply (subst uc_loop.simps, simp add: uc_eval neq same)
    apply (subst uc_loop.simps, simp add: uc_eval neq same)
    apply (subst uc_loop.simps, simp add: uc_eval neq same)
    apply (subst uc_loop.simps, simp add: addVnodes.simps)
    done
qed

theorem updateChildren_rotation_one_move_witness:
  "sameVnode web_env (li 1 (Some 10)) (li 1 None) = Inr True
   \<and> sameVnode web_env (li 2 (Some 11)) (li 2 None) = Inr True
   \<and> sameVnode web_env (li 3 (Some 12)) (li 3 None) = Inr True
   \<and> (\<exists>s. updateChildren web_env False [10, 11, 12] 100
          [Some (li 1 (Some 10)), Some (li 2 (Some 11)), Some (li 3 (Some 12))]
          [li 3 None, li 1 None, li 2 None] = Inr s
        \<and> ops s = [PatchVnode (li 3 (Some 12)) (li 3 None), Move 12 (Some 10),
                   PatchVnode (li 1 (Some 10)) (li 1 None),
                   PatchVnode (li 2 (Some 11)) (li 2 None)]
        \<and> host s = [12, 10, 11])"
  using updateChildren_rotation_one_move [of "li 1 (Some 10)" "li 2 (Some 11)" "li 3 (Some 12)"
      "li 1 None" "li 2 None" "li 3 None" web_env 10 11 12 100]
  by (simp add: li_same) blast

text \<open>
  C3.  Old children \<open>[a, b]\<close> with keys 1 and 2, new children \<open>[a', x, b']\<close> with keys
  1, 9, 2, the nodes of equal key the same node: \<open>updateChildren\<close> patches the two
  pairs and creates one element, for \<open>x\<close>, placed before the host node of \<open>b\<close>; it
  removes nothing.
\<close>

theorem updateChildren_insertion_one_create:
  assumes keys: "key a = JNum 1" "key b = JNum 2" "key a' = JNum 1" "key x = JNum 9"
      "key b' = JNum 2"
    and same: "sameVnode e a a' = Inr True" "sameVnode e b b' = Inr True"
    and elms: "elm a = Some ea" "elm b = Some eb" "ea \<noteq> eb" "fresh \<notin> {ea, eb}"
  shows "\<exists>s. updateChildren e False [ea, eb] fresh [Some a, Some b] [a', x, b'] = Inr s
      \<and> ops s = [PatchVnode a a', PatchVnode b b', CreateElm x fresh (Some eb)]
      \<and> filter is_create (ops s) = [CreateElm x fresh (Some eb)]
      \<and> filter is_remove (ops s) = []
      \<and> filter is_move (ops s) = []
      \<and> host s = [ea, fresh, eb]"
proof -
  have neq: "sameVnode e b x = Inr False"
    using keys by (simp_all add: sameVnode_key_neq strict_eq_def)
  show ?thesis
    using elms
    apply (simp add: updateChildren_def uc_init_def at_js_def at_slot_def)
    apply (subst uc_loop.simps, simp add: uc_eval neq same)
    apply (subst uc_loop.simps, simp add: uc_eval neq same)
    apply (subst uc_loop.simps, simp add: uc_eval)
    apply (subst addVnodes.simps, simp add: uc_eval)
    apply (subst addVnodes.simps, simp add: uc_eval)
    done
qed

theorem updateChildren_insertion_one_create_witness:
  "sameVnode web_env (li 1 (Some 10)) (li 1 None) = Inr True
   \<and> sameVnode web_env (li 2 (Some 11)) (li 2 None) = Inr True
   \<and> (\<exists>s. updateChildren web_env False [10, 11] 100
          [Some (li 1 (Some 10)), Some (li 2 (Some 11))]
          [li 1 None, li 9 None, li 2 None] = Inr s
        \<and> ops s = [PatchVnode (li 1 (Some 10)) (li 1 None),
                   PatchVnode (li 2 (Some 11)) (li 2 None),
                   CreateElm (li 9 None) 100 (Some 11)]
        \<and> host s = [10, 100, 11])"
  using updateChildren_insertion_one_create [of "li 1 (Some 10)" "li 2 (Some 11)"
      "li 1 None" "li 9 None" "li 2 None" web_env 10 11 100]
  by (simp add: li_same) blast

section \<open>The linear search of the fallback\<close>

lemma findIdxInOld_range:
  "findIdxInOld e node olds i end = Inr (Some j) \<Longrightarrow> i \<le> j \<and> j < end"
proof (induction e node olds i "end" rule: findIdxInOld.induct)
  case (1 e node olds i "end")
  then show ?case
    by (subst (asm) (2) findIdxInOld.simps)
      (fastforce split: if_splits option.splits sum.splits bool.splits)
qed

lemma findIdxInOld_end_ignored:
  "0 \<le> i \<Longrightarrow>
   findIdxInOld e node (olds[nat end := x]) i end = findIdxInOld e node olds i end"
proof (induction e node olds i "end" rule: findIdxInOld.induct)
  case (1 e node olds i "end")
  show ?case
  proof (cases "i < end")
    case True
    have at: "at_slot (olds[nat end := x]) i = at_slot olds i"
      using True 1(3) by (simp add: at_slot_def at_js_def)
    have L: "findIdxInOld e node (olds[nat end := x]) i end =
        (case at_slot olds i of
           None \<Rightarrow> findIdxInOld e node (olds[nat end := x]) (i + 1) end
         | Some c \<Rightarrow>
             (case sameVnode e node c of
                Inl err \<Rightarrow> Inl err
              | Inr True \<Rightarrow> Inr (Some i)
              | Inr False \<Rightarrow> findIdxInOld e node (olds[nat end := x]) (i + 1) end))"
      using True by (subst findIdxInOld.simps) (simp add: at)
    have R: "findIdxInOld e node olds i end =
        (case at_slot olds i of
           None \<Rightarrow> findIdxInOld e node olds (i + 1) end
         | Some c \<Rightarrow>
             (case sameVnode e node c of
                Inl err \<Rightarrow> Inl err
              | Inr True \<Rightarrow> Inr (Some i)
              | Inr False \<Rightarrow> findIdxInOld e node olds (i + 1) end))"
      using True by (subst findIdxInOld.simps) simp
    show ?thesis
      unfolding L R using 1 True
      by (auto split: option.splits sum.splits bool.splits)
  next
    case False
    then show ?thesis by (simp add: findIdxInOld.simps)
  qed
qed

lemma findIdxInOld_one_more:
  "i \<le> end \<Longrightarrow>
   findIdxInOld e node olds i (end + 1) =
     (case findIdxInOld e node olds i end of
        Inl err \<Rightarrow> Inl err
      | Inr (Some j) \<Rightarrow> Inr (Some j)
      | Inr None \<Rightarrow>
          (case at_slot olds end of
             None \<Rightarrow> Inr None
           | Some c \<Rightarrow>
               (case sameVnode e node c of
                  Inl err \<Rightarrow> Inl err
                | Inr True \<Rightarrow> Inr (Some end)
                | Inr False \<Rightarrow> Inr None)))"
proof (induction e node olds i "end" rule: findIdxInOld.induct)
  case (1 e node olds i "end")
  show ?case
  proof (cases "i < end")
    case True
    have L: "findIdxInOld e node olds i (end + 1) =
        (case at_slot olds i of
           None \<Rightarrow> findIdxInOld e node olds (i + 1) (end + 1)
         | Some c \<Rightarrow>
             (case sameVnode e node c of
                Inl err \<Rightarrow> Inl err
              | Inr True \<Rightarrow> Inr (Some i)
              | Inr False \<Rightarrow> findIdxInOld e node olds (i + 1) (end + 1)))"
      using True by (subst findIdxInOld.simps) simp
    have R: "findIdxInOld e node olds i end =
        (case at_slot olds i of
           None \<Rightarrow> findIdxInOld e node olds (i + 1) end
         | Some c \<Rightarrow>
             (case sameVnode e node c of
                Inl err \<Rightarrow> Inl err
              | Inr True \<Rightarrow> Inr (Some i)
              | Inr False \<Rightarrow> findIdxInOld e node olds (i + 1) end))"
      using True by (subst findIdxInOld.simps) simp
    show ?thesis
      unfolding L R using 1 True
      by (auto split: option.splits sum.splits bool.splits)
  next
    case False
    with 1(3) have eq: "i = end" by simp
    have a: "findIdxInOld e node olds end end = Inr None"
      by (subst findIdxInOld.simps) simp
    have b: "findIdxInOld e node olds (end + 1) (end + 1) = Inr None"
      by (subst findIdxInOld.simps) simp
    have c: "findIdxInOld e node olds end (end + 1) =
        (case at_slot olds end of
           None \<Rightarrow> Inr None
         | Some c \<Rightarrow>
             (case sameVnode e node c of
                Inl err \<Rightarrow> Inl err
              | Inr True \<Rightarrow> Inr (Some end)
              | Inr False \<Rightarrow> Inr None))"
      by (subst findIdxInOld.simps) (simp add: b split: option.splits sum.splits bool.splits)
    show ?thesis unfolding eq a c by simp
  qed
qed

text \<open>
  An index whose old child fails \<open>sameVnode(vnodeToMove, newStartVnode)\<close> is treated
  like no index: a fresh element is created.
\<close>

lemma found_but_not_same:
  "at_slot (oldCh s) i = Some c \<Longrightarrow> sameVnode e c newStart = Inr False \<Longrightarrow>
   reuse_or_create e canMove oldStart newStart (Index i) s =
   reuse_or_create e canMove oldStart newStart Absent s"
  by (simp add: reuse_or_create_def)

lemma fallback_bound_immaterial:
  assumes win: "oldStartIdx s \<le> oldEndIdx s"
    and cur: "at_slot (oldCh s) (oldEndIdx s) = Some oldEnd"
    and probe: "sameVnode e oldEnd newStart = Inr False"
    and ret: "fallback_to_end e canMove oldStart newStart s = Inr s'"
  shows "fallback e canMove oldStart newStart s = Inr s'"
proof (cases "isDef (key newStart)")
  case True
  with ret show ?thesis by (simp add: fallback_def fallback_to_end_def)
next
  case False
  from ret obtain m where m: "(case oldKeyToIdx s of
        None \<Rightarrow> createKeyToOldIdx e (oldCh s) (oldStartIdx s) (oldEndIdx s) Map.empty
      | Some m \<Rightarrow> Inr m) = Inr m"
    unfolding fallback_to_end_def by (auto dest!: bindE_Inr)
  let ?s = "s\<lparr>oldKeyToIdx := Some m\<rparr>"
  let ?fin = "\<lambda>s'. Inr (s'\<lparr>newStartIdx := newStartIdx s + 1,
      newStartVnode := at_js (newCh s') (newStartIdx s + 1)\<rparr>) :: js_error + uc"
  let ?to_lookup = "\<lambda>r. Inr (case r of None \<Rightarrow> Absent | Some i \<Rightarrow> Index i) :: js_error + lookup"
  have incl: "fallback_to_end e canMove oldStart newStart s =
      bindE (bindE (findIdxInOld e newStart (oldCh s) (oldStartIdx s) (oldEndIdx s + 1)) ?to_lookup)
        (\<lambda>idxInOld. bindE (reuse_or_create e canMove oldStart newStart idxInOld ?s) ?fin)"
    using False m by (simp add: fallback_to_end_def)
  have excl: "fallback e canMove oldStart newStart s =
      bindE (bindE (findIdxInOld e newStart (oldCh s) (oldStartIdx s) (oldEndIdx s)) ?to_lookup)
        (\<lambda>idxInOld. bindE (reuse_or_create e canMove oldStart newStart idxInOld ?s) ?fin)"
    using False m by (simp add: fallback_def)
  note more = findIdxInOld_one_more [OF win, of e newStart "oldCh s"]
  have cur': "at_slot (oldCh ?s) (oldEndIdx s) = Some oldEnd" using cur by simp
  show ?thesis
  proof (cases "findIdxInOld e newStart (oldCh s) (oldStartIdx s) (oldEndIdx s)")
    case (Inl err)
    with ret incl more show ?thesis by simp
  next
    case (Inr r)
    show ?thesis
    proof (cases r)
      case (Some j)
      with Inr ret incl excl more show ?thesis by simp
    next
      case None
      show ?thesis
      proof (cases "sameVnode e newStart oldEnd")
        case (Inl err)
        with None Inr ret incl more cur show ?thesis by simp
      next
        case same: (Inr b)
        show ?thesis
        proof (cases b)
          case True
          have "findIdxInOld e newStart (oldCh s) (oldStartIdx s) (oldEndIdx s + 1)
              = Inr (Some (oldEndIdx s))"
            using more None Inr cur same True by simp
          with ret incl have "bindE (reuse_or_create e canMove oldStart newStart
              (Index (oldEndIdx s)) ?s) ?fin = Inr s'"
            by simp
          then show ?thesis
            unfolding excl using Inr None found_but_not_same [OF cur' probe]
            by simp
        next
          case False
          with None Inr ret incl excl more cur same show ?thesis by simp
        qed
      qed
    qed
  qed
qed

text \<open>
  The fallback is the branch taken when the four probes answer false; when only
  the fourth answers true, the old child at the end cursor is patched and its host
  node moved before that of the old start child.
\<close>

lemma uc_step_fallback:
  assumes "oldStartVnode s = Some oldStart" "oldEndVnode s = Some oldEnd"
    "newStartVnode s = Some newStart" "newEndVnode s = Some newEnd"
    "sameVnode e oldStart newStart = Inr False" "sameVnode e oldEnd newEnd = Inr False"
    "sameVnode e oldStart newEnd = Inr False" "sameVnode e oldEnd newStart = Inr False"
  shows "uc_step e canMove s = fallback e canMove oldStart newStart s"
  using assms by (simp add: uc_step_def sameVnode_opt_def)

lemma uc_step_fourth_probe:
  assumes "oldStartVnode s = Some oldStart" "oldEndVnode s = Some oldEnd"
    "newStartVnode s = Some newStart" "newEndVnode s = Some newEnd"
    "sameVnode e oldStart newStart = Inr False" "sameVnode e oldEnd newEnd = Inr False"
    "sameVnode e oldStart newEnd = Inr False" "sameVnode e oldEnd newStart = Inr True"
    "uc_step e True s = Inr s'"
  shows "ops s' = ops s @ [PatchVnode oldEnd newStart, Move (the (elm oldEnd)) (elm oldStart)]"
  using assms
  by (auto simp: uc_step_def sameVnode_opt_def Let_def move_def patchVnode_def
      dest!: bindE_Inr)

text \<open>
  The cursor variables keep holding the entries at the cursors: the loop clears
  an old entry only where a probe has failed on the node that the reuse test then
  accepts, so never at a cursor.
\<close>

lemma reuse_or_create_cursors:
  assumes cur: "at_slot (oldCh s) a = Some x" and no: "sameVnode e x newStart = Inr False"
    and ret: "reuse_or_create e canMove oldStart newStart r s = Inr s'"
  shows "at_slot (oldCh s') a = Some x"
proof (cases r)
  case Absent
  with ret cur show ?thesis
    by (auto simp: reuse_or_create_def createElm_def split: option.splits dest!: bindE_Inr)
next
  case Inherited
  with ret show ?thesis by (simp add: reuse_or_create_def)
next
  case (Index i)
  with ret obtain v where v: "at_slot (oldCh s) i = Some v"
    by (auto simp: reuse_or_create_def split: option.splits)
  show ?thesis
  proof (cases "sameVnode e v newStart = Inr True")
    case True
    with no cur v have ne: "i \<noteq> a" by auto
    have i0: "0 \<le> i" using v by (auto simp: at_slot_def at_js_def split: if_splits)
    have keep: "at_slot ((oldCh s)[nat i := None]) a = Some x"
      using cur ne i0 by (auto simp: at_slot_def at_js_def split: if_splits)
    from ret Index v True keep show ?thesis
      by (auto simp: reuse_or_create_def Let_def move_def patchVnode_def
          split: if_splits dest!: bindE_Inr)
  next
    case False
    with ret Index v cur show ?thesis
      by (auto simp: reuse_or_create_def createElm_def
          split: option.splits if_splits dest!: bindE_Inr)
  qed
qed

lemma uc_init_cursors: "uc_cursors (uc_init parentCh fresh oldCh0 newCh0)"
  by (simp add: uc_cursors_def uc_init_def)

lemma reuse_or_create_frame:
  "reuse_or_create e c a b r s = Inr s' \<Longrightarrow>
     oldStartVnode s' = oldStartVnode s \<and> oldEndVnode s' = oldEndVnode s"
  unfolding reuse_or_create_def
  by (auto split: option.splits if_splits lookup.splits
      simp: Let_def createElm_def move_def patchVnode_def dest!: bindE_Inr)

lemma fallback_cursors:
  assumes cur: "uc_cursors s" and os: "oldStartVnode s = Some oldStart"
    and oe: "oldEndVnode s = Some oldEnd"
    and p1: "sameVnode e oldStart newStart = Inr False"
    and p4: "sameVnode e oldEnd newStart = Inr False"
    and ret: "fallback e canMove oldStart newStart s = Inr s'"
  shows "uc_cursors s'"
proof -
  from ret obtain m r s1 where
    s1: "reuse_or_create e canMove oldStart newStart r (s\<lparr>oldKeyToIdx := Some m\<rparr>) = Inr s1"
    and s': "s' = s1\<lparr>newStartIdx := newStartIdx s + 1,
        newStartVnode := at_js (newCh s1) (newStartIdx s + 1)\<rparr>"
    unfolding fallback_def by (auto dest!: bindE_Inr)
  let ?s = "s\<lparr>oldKeyToIdx := Some m\<rparr>"
  have a: "at_slot (oldCh ?s) (oldStartIdx s) = Some oldStart"
      "at_slot (oldCh ?s) (oldEndIdx s) = Some oldEnd"
    using cur os oe by (simp_all add: uc_cursors_def)
  from reuse_or_create_cursors [OF a(1) p1 s1] reuse_or_create_cursors [OF a(2) p4 s1]
    reuse_or_create_frame [OF s1] reuse_or_create_idx [OF s1] os oe
  show ?thesis by (simp add: uc_cursors_def s')
qed

lemma uc_step_cursors:
  assumes cur: "uc_cursors s" and ret: "uc_step e canMove s = Inr s'"
  shows "uc_cursors s'"
proof (cases "oldStartVnode s")
  case None
  with ret cur show ?thesis by (auto simp: uc_step_def uc_cursors_def)
next
  case os: (Some oldStart)
  show ?thesis
  proof (cases "oldEndVnode s")
    case None
    with ret cur os show ?thesis by (auto simp: uc_step_def uc_cursors_def)
  next
    case oe: (Some oldEnd)
    show ?thesis
    proof (cases "sameVnode_opt e (Some oldStart) (newStartVnode s) = Inr False \<and>
        sameVnode_opt e (Some oldEnd) (newEndVnode s) = Inr False \<and>
        sameVnode_opt e (Some oldStart) (newEndVnode s) = Inr False \<and>
        sameVnode_opt e (Some oldEnd) (newStartVnode s) = Inr False")
      case True
      then obtain newStart where ns: "newStartVnode s = Some newStart"
        by (auto simp: sameVnode_opt_def split: option.splits)
      with True have p: "sameVnode e oldStart newStart = Inr False"
          "sameVnode e oldEnd newStart = Inr False"
        by (simp_all add: sameVnode_opt_def)
      from ret os oe True ns have "fallback e canMove oldStart newStart s = Inr s'"
        by (simp add: uc_step_def)
      from fallback_cursors [OF cur os oe p this] show ?thesis .
    next
      case False
      with ret os oe cur show ?thesis
        by (auto simp: uc_step_def uc_cursors_def Let_def patchVnode_def move_def
            split: if_splits dest!: bindE_Inr)
    qed
  qed
qed

text \<open>
  C10, as the code has it.  \<open>findIdxInOld(node, oldCh, start, end)\<close> returns only
  indices \<open>i\<close> with \<open>start \<le> i < end\<close>, and what \<open>oldCh[end]\<close> holds never changes its
  result; the fallback calls it with \<open>end = oldEndIdx\<close>, so the old child at the end
  cursor is never its answer.  Nothing is lost by that.  The fallback runs only
  after the fourth probe \<open>sameVnode(oldEndVnode, newStartVnode)\<close> has answered false,
  and an answer of the search is reused only if \<open>sameVnode(oldCh[answer],
  newStartVnode)\<close> holds: whenever the fallback with the search extended to
  \<open>oldEndIdx\<close> returns, the fallback of the code returns the same state.
\<close>

theorem findIdxInOld_stops_before_old_end:
  "(findIdxInOld e node olds i end = Inr (Some j) \<longrightarrow> i \<le> j \<and> j < end)
   \<and> (0 \<le> i \<longrightarrow>
        findIdxInOld e node (olds[nat end := x]) i end = findIdxInOld e node olds i end)
   \<and> (oldStartIdx s \<le> oldEndIdx s \<and> uc_cursors s \<and> oldEndVnode s = Some oldEnd \<and>
        sameVnode e oldEnd newStart = Inr False \<and>
        fallback_to_end e canMove oldStart newStart s = Inr s' \<longrightarrow>
        fallback e canMove oldStart newStart s = Inr s')"
  using findIdxInOld_range [of e node olds i "end" j]
    findIdxInOld_end_ignored [of i e node olds "end" x]
    fallback_bound_immaterial [of s oldEnd e newStart canMove oldStart s']
  by (auto simp: uc_cursors_def)

text \<open>
  Two scenarios for the fallback at the first turn of the loop.  Old children
  \<open>[div, span]\<close> and the new child \<open>p\<close>, all without keys: no old child is the same node
  as \<open>p\<close>.  Old children \<open>[div, resolved async component]\<close> and as the new child a
  placeholder of the same factory that an earlier patch has marked as still loading:
  \<open>sameVnode(placeholder, component)\<close> holds but \<open>sameVnode(component, placeholder)\<close>
  does not, so the search extended to \<open>oldEndIdx\<close> answers 1, and the node is created
  all the same.
\<close>

lemma plain_sameVnode:
  "sameVnode web_env (element ''span'' (Some 11)) (element ''p'' None) = Inr False"
  "sameVnode web_env (element ''p'' None) (element ''span'' (Some 11)) = Inr False"
  "sameVnode web_env (element ''p'' None) (element ''div'' (Some 10)) = Inr False"
  by (simp_all add: sameVnode_def element_def)

lemma plain_fields:
  "key (element t h) = JUndefined" "elm (element t h) = h"
  by (simp_all add: element_def)

lemma plain_search:
  "findIdxInOld web_env (element ''p'' None)
     [Some (element ''div'' (Some 10)), Some (element ''span'' (Some 11))] 0 2 = Inr None"
  apply (subst findIdxInOld.simps, simp add: at_slot_def at_js_def plain_sameVnode)
  apply (subst findIdxInOld.simps, simp add: at_slot_def at_js_def plain_sameVnode)
  apply (subst findIdxInOld.simps, simp)
  done

lemma plain_key_index:
  "createKeyToOldIdx web_env
     [Some (element ''div'' (Some 10)), Some (element ''span'' (Some 11))] 0 1 Map.empty
     = Inr Map.empty"
  apply (subst createKeyToOldIdx.simps, simp add: at_slot_def at_js_def plain_fields isDef_def)
  apply (subst createKeyToOldIdx.simps, simp add: at_slot_def at_js_def plain_fields isDef_def)
  apply (subst createKeyToOldIdx.simps, simp add: at_slot_def at_js_def plain_fields isDef_def)
  done

lemma plain_fallback_to_end:
  "\<exists>s'. fallback_to_end web_env True (element ''div'' (Some 10)) (element ''p'' None)
       (uc_init [10, 11] 100
          [Some (element ''div'' (Some 10)), Some (element ''span'' (Some 11))]
          [element ''p'' None]) = Inr s'
     \<and> ops s' = [CreateElm (element ''p'' None) 100 (Some 10)]"
  by (simp add: fallback_to_end_def uc_init_def plain_key_index plain_fields
      isDef_def plain_search reuse_or_create_def at_slot_def at_js_def
      createElm_def insert_host_def insertBefore_def)

lemma placeholder_sameVnode:
  "sameVnode web_env (async_placeholder 7) (resolved_async 7 (Some 11)) = Inr True"
  "sameVnode web_env (resolved_async 7 (Some 11)) (async_placeholder 7) = Inr False"
  "sameVnode web_env (element ''div'' (Some 10)) (async_placeholder 7) = Inr False"
  "sameVnode web_env (async_placeholder 7) (element ''div'' (Some 10)) = Inr False"
  by (simp_all add: sameVnode_def async_placeholder_def resolved_async_def element_def
      web_env_def strict_eq_def)

lemma placeholder_fields:
  "key (async_placeholder 7) = JUndefined" "key (element ''div'' (Some 10)) = JUndefined"
  "key (resolved_async 7 (Some 11)) = JUndefined"
  "elm (element ''div'' (Some 10)) = Some 10" "elm (resolved_async 7 (Some 11)) = Some 11"
  by (simp_all add: async_placeholder_def resolved_async_def element_def)

lemma placeholder_search_exclusive:
  "findIdxInOld web_env (async_placeholder 7)
     [Some (element ''div'' (Some 10)), Some (resolved_async 7 (Some 11))] 0 1 = Inr None"
  apply (subst findIdxInOld.simps, simp add: at_slot_def at_js_def placeholder_sameVnode)
  apply (subst findIdxInOld.simps, simp)
  done

lemma placeholder_search_inclusive:
  "findIdxInOld web_env (async_placeholder 7)
     [Some (element ''div'' (Some 10)), Some (resolved_async 7 (Some 11))] 0 2 = Inr (Some 1)"
  apply (subst findIdxInOld.simps, simp add: at_slot_def at_js_def placeholder_sameVnode)
  apply (subst findIdxInOld.simps, simp add: at_slot_def at_js_def placeholder_sameVnode)
  done

lemma placeholder_key_index:
  "createKeyToOldIdx web_env
     [Some (element ''div'' (Some 10)), Some (resolved_async 7 (Some 11))] 0 1 Map.empty
     = Inr Map.empty"
  apply (subst createKeyToOldIdx.simps, simp add: at_slot_def at_js_def placeholder_fields isDef_def)
  apply (subst createKeyToOldIdx.simps, simp add: at_slot_def at_js_def placeholder_fields isDef_def)
  apply (subst createKeyToOldIdx.simps, simp add: at_slot_def at_js_def placeholder_fields isDef_def)
  done

lemma placeholder_fallback_to_end:
  "\<exists>s'. fallback_to_end web_env True (element ''div'' (Some 10)) (async_placeholder 7)
       (uc_init [10, 11] 100
          [Some (element ''div'' (Some 10)), Some (resolved_async 7 (Some 11))]
          [async_placeholder 7]) = Inr s'
     \<and> ops s' = [CreateElm (async_placeholder 7) 100 (Some 10)]"
  by (simp add: fallback_to_end_def uc_init_def placeholder_key_index placeholder_fields
      isDef_def placeholder_search_inclusive reuse_or_create_def at_slot_def at_js_def
      placeholder_sameVnode createElm_def insert_host_def insertBefore_def)

theorem findIdxInOld_stops_before_old_end_witness:
  "sameVnode web_env (element ''span'' (Some 11)) (element ''p'' None) = Inr False
   \<and> (\<exists>s'. fallback_to_end web_env True (element ''div'' (Some 10)) (element ''p'' None)
          (uc_init [10, 11] 100
             [Some (element ''div'' (Some 10)), Some (element ''span'' (Some 11))]
             [element ''p'' None]) = Inr s'
        \<and> fallback web_env True (element ''div'' (Some 10)) (element ''p'' None)
          (uc_init [10, 11] 100
             [Some (element ''div'' (Some 10)), Some (element ''span'' (Some 11))]
             [element ''p'' None]) = Inr s'
        \<and> ops s' = [CreateElm (element ''p'' None) 100 (Some 10)])
   \<and> findIdxInOld web_env (async_placeholder 7)
     [Some (element ''div'' (Some 10)), Some (resolved_async 7 (Some 11))] 0 2 = Inr (Some 1)
   \<and> (0::int) \<le> 1 \<and> (1::int) < 2
   \<and> findIdxInOld web_env (async_placeholder 7)
        [Some (element ''div'' (Some 10)), Some (resolved_async 7 (Some 11))] 0 1 = Inr None
   \<and> sameVnode web_env (resolved_async 7 (Some 11)) (async_placeholder 7) = Inr False
   \<and> (\<exists>s'. fallback_to_end web_env True (element ''div'' (Some 10)) (async_placeholder 7)
          (uc_init [10, 11] 100
             [Some (element ''div'' (Some 10)), Some (resolved_async 7 (Some 11))]
             [async_placeholder 7]) = Inr s'
        \<and> fallback web_env True (element ''div'' (Some 10)) (async_placeholder 7)
          (uc_init [10, 11] 100
             [Some (element ''div'' (Some 10)), Some (resolved_async 7 (Some 11))]
             [async_placeholder 7]) = Inr s'
        \<and> ops s' = [CreateElm (async_placeholder 7) 100 (Some 10)])"
proof -
  let ?s = "uc_init [10, 11] 100
             [Some (element ''div'' (Some 10)), Some (resolved_async 7 (Some 11))]
             [async_placeholder 7]"
  let ?t = "uc_init [10, 11] 100
             [Some (element ''div'' (Some 10)), Some (element ''span'' (Some 11))]
             [element ''p'' None]"
  obtain s' where r: "fallback_to_end web_env True (element ''div'' (Some 10))
        (async_placeholder 7) ?s = Inr s'"
      "ops s' = [CreateElm (async_placeholder 7) 100 (Some 10)]"
    using placeholder_fallback_to_end by blast
  obtain t' where u: "fallback_to_end web_env True (element ''div'' (Some 10))
        (element ''p'' None) ?t = Inr t'"
      "ops t' = [CreateElm (element ''p'' None) 100 (Some 10)]"
    using plain_fallback_to_end by blast
  have h: "oldStartIdx ?s \<le> oldEndIdx ?s" "uc_cursors ?s"
      "oldEndVnode ?s = Some (resolved_async 7 (Some 11))"
      "oldStartIdx ?t \<le> oldEndIdx ?t" "uc_cursors ?t"
      "oldEndVnode ?t = Some (element ''span'' (Some 11))"
    by (simp_all add: uc_cursors_def uc_init_def at_slot_def at_js_def)
  from findIdxInOld_stops_before_old_end [of web_env "async_placeholder 7"
      "[Some (element ''div'' (Some 10)), Some (resolved_async 7 (Some 11))]" 0 2 1 None
      ?s "resolved_async 7 (Some 11)" "async_placeholder 7" True "element ''div'' (Some 10)" s']
    findIdxInOld_stops_before_old_end [of web_env "async_placeholder 7"
      "[Some (element ''div'' (Some 10)), Some (resolved_async 7 (Some 11))]" 0 2 1 None
      ?t "element ''span'' (Some 11)" "element ''p'' None" True "element ''div'' (Some 10)" t']
    r u h
  show ?thesis
    by (simp add: placeholder_search_inclusive placeholder_search_exclusive
        placeholder_sameVnode plain_sameVnode)
qed

text \<open>
  The claim as stated has inputs on which a node is created because the search
  leaves out the end cursor.  There is none: no state of the loop, entered with the
  fourth probe failed, on which the fallback does anything else when the search
  inspects \<open>oldCh[oldEndIdx]\<close> as well.
\<close>

theorem no_reuse_lost_at_old_end:
  "\<not> (\<exists>e canMove oldStart oldEnd newStart s s'.
        oldStartIdx s \<le> oldEndIdx s \<and> uc_cursors s \<and> oldEndVnode s = Some oldEnd \<and>
        sameVnode e oldEnd newStart = Inr False \<and>
        fallback_to_end e canMove oldStart newStart s = Inr s' \<and>
        fallback e canMove oldStart newStart s \<noteq> Inr s')"
proof
  assume "\<exists>e canMove oldStart oldEnd newStart s s'.
        oldStartIdx s \<le> oldEndIdx s \<and> uc_cursors s \<and> oldEndVnode s = Some oldEnd \<and>
        sameVnode e oldEnd newStart = Inr False \<and>
        fallback_to_end e canMove oldStart newStart s = Inr s' \<and>
        fallback e canMove oldStart newStart s \<noteq> Inr s'"
  then obtain e canMove oldStart oldEnd newStart s s' where
    a: "oldStartIdx s \<le> oldEndIdx s" "uc_cursors s" "oldEndVnode s = Some oldEnd"
      "sameVnode e oldEnd newStart = Inr False"
      "fallback_to_end e canMove oldStart newStart s = Inr s'"
      "fallback e canMove oldStart newStart s \<noteq> Inr s'"
    by blast
  from a(2,3) have "at_slot (oldCh s) (oldEndIdx s) = Some oldEnd"
    by (simp add: uc_cursors_def)
  from fallback_bound_immaterial [OF a(1) this a(4,5)] a(6) show False by contradiction
qed

section \<open>Scheduling and flushing\<close>

lemma scan_back_spec:
  "int idx \<le> i \<Longrightarrow>
   int idx \<le> scan_back q idx w i \<and> scan_back q idx w i \<le> i \<and>
   (\<forall>j. scan_back q idx w i < j \<and> j \<le> i \<longrightarrow> w < q ! nat j) \<and>
   (scan_back q idx w i = int idx \<or> q ! nat (scan_back q idx w i) \<le> w)"
proof (induction q idx w i rule: scan_back.induct)
  case (1 q idx w i)
  show ?case
  proof (cases "i > int idx \<and> q ! nat i > w")
    case True
    then have step: "scan_back q idx w i = scan_back q idx w (i - 1)"
      by (subst scan_back.simps) simp
    have IH: "int idx \<le> scan_back q idx w (i - 1) \<and> scan_back q idx w (i - 1) \<le> i - 1 \<and>
        (\<forall>j. scan_back q idx w (i - 1) < j \<and> j \<le> i - 1 \<longrightarrow> w < q ! nat j) \<and>
        (scan_back q idx w (i - 1) = int idx \<or> q ! nat (scan_back q idx w (i - 1)) \<le> w)"
      using 1(1) [OF True] True by simp
    have "\<And>j. scan_back q idx w (i - 1) < j \<Longrightarrow> j \<le> i \<Longrightarrow> w < q ! nat j"
    proof -
      fix j assume a: "scan_back q idx w (i - 1) < j" "j \<le> i"
      show "w < q ! nat j"
      proof (cases "j = i")
        case True
        with \<open>i > int idx \<and> q ! nat i > w\<close> show ?thesis by simp
      next
        case False
        with a IH show ?thesis by simp
      qed
    qed
    with IH show ?thesis unfolding step by auto
  next
    case False
    then have stop: "scan_back q idx w i = i"
      by (subst scan_back.simps) auto
    show ?thesis unfolding stop using False 1(2) by auto
  qed
qed


lemma sorted_insert_at:
  assumes srt: "sorted xs" and k: "k \<le> length xs"
    and above: "\<forall>j. k \<le> j \<and> j < length xs \<longrightarrow> w < xs ! j"
    and below: "k = 0 \<or> xs ! (k - 1) \<le> w"
  shows "sorted (take k xs @ w # drop k xs)"
proof -
  have s1: "sorted (take k xs)" "sorted (drop k xs)"
    using srt by (simp_all add: sorted_wrt_take sorted_wrt_drop)
  have lo: "\<forall>x\<in>set (take k xs). x \<le> w"
  proof
    fix x assume "x \<in> set (take k xs)"
    then obtain j where j: "j < k" "j < length xs" "x = xs ! j"
      by (auto simp: in_set_conv_nth)
    from j below have k0: "xs ! (k - 1) \<le> w" by auto
    have "xs ! j \<le> xs ! (k - 1)"
      using srt j k by (intro sorted_nth_mono) auto
    with k0 j show "x \<le> w" by simp
  qed
  have hi: "\<forall>y\<in>set (drop k xs). w < y"
  proof
    fix y assume "y \<in> set (drop k xs)"
    then obtain j where "j < length xs - k" "y = xs ! (k + j)"
      by (auto simp: in_set_conv_nth)
    with above show "w < y" by simp
  qed
  have "\<forall>x\<in>set (take k xs). \<forall>y\<in>set (drop k xs). x \<le> y"
    using lo hi by fastforce
  with s1 lo hi show ?thesis
    by (auto simp: sorted_append less_imp_le)
qed


lemma queueWatcher_present: "has s w \<Longrightarrow> queueWatcher cfg w s = (s, NoCall)"
  by (simp add: queueWatcher_def)

lemma queueWatcher_has: "\<not> has s w \<Longrightarrow> has (fst (queueWatcher cfg w s)) w"
  by (simp add: queueWatcher_def Let_def)

lemma queueWatcher_idle_queue:
  "\<not> has s w \<Longrightarrow> \<not> flushing s \<Longrightarrow> queue (fst (queueWatcher cfg w s)) = queue s @ [w]"
  by (simp add: queueWatcher_def Let_def)

lemma queueWatcher_flushing_queue:
  "\<not> has s w \<Longrightarrow> flushing s \<Longrightarrow>
   queue (fst (queueWatcher cfg w s)) =
     take (insert_pos s w) (queue s) @ w # drop (insert_pos s w) (queue s)"
  by (simp add: queueWatcher_def Let_def insert_pos_def)

lemma insert_pos_spec:
  assumes "index s < length (queue s)"
  shows "index s < insert_pos s w \<and> insert_pos s w \<le> length (queue s) \<and>
     (\<forall>j. insert_pos s w \<le> j \<and> j < length (queue s) \<longrightarrow> w < queue s ! j) \<and>
     (insert_pos s w = index s + 1 \<or> queue s ! (insert_pos s w - 1) \<le> w)"
proof -
  let ?r = "scan_back (queue s) (index s) w (int (length (queue s)) - 1)"
  have le: "int (index s) \<le> int (length (queue s)) - 1" using assms by simp
  note sp = scan_back_spec [OF le, of "queue s" w]
  have k: "insert_pos s w = nat (?r + 1)" by (simp add: insert_pos_def)
  have r0: "0 \<le> ?r" using sp by linarith
  have a: "index s < insert_pos s w" using sp k by linarith
  have b: "insert_pos s w \<le> length (queue s)" using sp k by linarith
  have c: "\<forall>j. insert_pos s w \<le> j \<and> j < length (queue s) \<longrightarrow> w < queue s ! j"
  proof (intro allI impI)
    fix j assume j: "insert_pos s w \<le> j \<and> j < length (queue s)"
    then have "?r < int j \<and> int j \<le> int (length (queue s)) - 1" using k r0 by linarith
    with sp have "w < queue s ! nat (int j)" by blast
    then show "w < queue s ! j" by simp
  qed
  have d: "insert_pos s w = index s + 1 \<or> queue s ! (insert_pos s w - 1) \<le> w"
  proof -
    from sp have "?r = int (index s) \<or> queue s ! nat ?r \<le> w" by blast
    then show ?thesis
    proof
      assume "?r = int (index s)"
      then have "insert_pos s w = index s + 1" using k by linarith
      then show ?thesis by blast
    next
      assume "queue s ! nat ?r \<le> w"
      moreover have "insert_pos s w - 1 = nat ?r" using k r0 by linarith
      ultimately show ?thesis by simp
    qed
  qed
  from a b c d show ?thesis by blast
qed

lemma insert_keeps_sorted:
  assumes idx: "index s < length (queue s)"
    and srt: "sorted (drop (index s + 1) (queue s))"
  shows "sorted (drop (index s + 1)
           (take (insert_pos s w) (queue s) @ w # drop (insert_pos s w) (queue s)))"
proof -
  let ?q = "queue s" and ?k = "insert_pos s w" and ?n = "index s + 1"
  note sp = insert_pos_spec [OF idx, of w]
  have kn: "?n \<le> ?k" "?k \<le> length ?q" using sp by auto
  have eq: "drop ?n (take ?k ?q @ w # drop ?k ?q) =
      take (?k - ?n) (drop ?n ?q) @ w # drop (?k - ?n) (drop ?n ?q)"
    using kn by (simp add: drop_take)
  have above: "\<forall>j. ?k - ?n \<le> j \<and> j < length (drop ?n ?q) \<longrightarrow> w < drop ?n ?q ! j"
  proof (intro allI impI)
    fix j assume j: "?k - ?n \<le> j \<and> j < length (drop ?n ?q)"
    then have "?k \<le> ?n + j \<and> ?n + j < length ?q" using kn by auto
    with sp have "w < ?q ! (?n + j)" by blast
    moreover have "drop ?n ?q ! j = ?q ! (?n + j)"
      using j idx by (intro nth_drop) simp
    ultimately show "w < drop ?n ?q ! j" by simp
  qed
  have below: "?k - ?n = 0 \<or> drop ?n ?q ! (?k - ?n - 1) \<le> w"
  proof (cases "?k = ?n")
    case True
    then show ?thesis by simp
  next
    case False
    with sp have low: "?q ! (?k - 1) \<le> w" by blast
    from kn False have "?n < ?k" by linarith
    then obtain m where m: "?k = Suc (?n + m)" by (rule less_imp_Suc_add [THEN exE])
    have "drop ?n ?q ! m = ?q ! (?n + m)"
      using idx by (intro nth_drop) simp
    moreover have "?k - ?n - 1 = m" "?k - 1 = ?n + m" using m by linarith+
    ultimately show ?thesis using low by presburger
  qed
  have "sorted (take (?k - ?n) (drop ?n ?q) @ w # drop (?k - ?n) (drop ?n ?q))"
    using srt kn above below by (intro sorted_insert_at) auto
  then show ?thesis unfolding eq .
qed

text \<open>
  C5.  \<open>queueWatcher(w)\<close>: when \<open>has[w.id]\<close> is set nothing changes.  Otherwise the id
  is marked; a scheduler that is not flushing appends \<open>w\<close>; a flushing one (its loop
  at \<open>index\<close>) splices \<open>w\<close> in at the position \<open>k\<close> found by the backward scan:
  \<open>k\<close> lies after \<open>index\<close>, every entry from \<open>k\<close> on has a larger id, and the entry
  before \<open>k\<close> is the running one or has an id that is not larger.  The entries up
  to \<open>index\<close> stay as they are, and if the entries after \<open>index\<close> were in ascending order
  they still are.
\<close>

theorem queueWatcher_places_watcher:
  "(has s w \<longrightarrow> queueWatcher cfg w s = (s, NoCall))
   \<and> (\<not> has s w \<longrightarrow> has (fst (queueWatcher cfg w s)) w)
   \<and> (\<not> has s w \<and> \<not> flushing s \<longrightarrow> queue (fst (queueWatcher cfg w s)) = queue s @ [w])
   \<and> (\<not> has s w \<and> flushing s \<and> index s < length (queue s) \<longrightarrow>
        queue (fst (queueWatcher cfg w s)) =
          take (insert_pos s w) (queue s) @ w # drop (insert_pos s w) (queue s)
        \<and> index s < insert_pos s w \<and> insert_pos s w \<le> length (queue s)
        \<and> (\<forall>j. insert_pos s w \<le> j \<and> j < length (queue s) \<longrightarrow> w < queue s ! j)
        \<and> (insert_pos s w = index s + 1 \<or> queue s ! (insert_pos s w - 1) \<le> w)
        \<and> take (index s + 1) (queue (fst (queueWatcher cfg w s))) = take (index s + 1) (queue s)
        \<and> (sorted (drop (index s + 1) (queue s)) \<longrightarrow>
             sorted (drop (index s + 1) (queue (fst (queueWatcher cfg w s))))))"
proof -
  have fl: "\<not> has s w \<and> flushing s \<and> index s < length (queue s) \<Longrightarrow>
      take (index s + 1) (queue (fst (queueWatcher cfg w s))) = take (index s + 1) (queue s)"
    using insert_pos_spec [of s w] by (simp add: queueWatcher_flushing_queue)
  show ?thesis
    using queueWatcher_present [of s w cfg] queueWatcher_has [of s w cfg]
      queueWatcher_idle_queue [of s w cfg] queueWatcher_flushing_queue [of s w cfg]
      insert_pos_spec [of s w] insert_keeps_sorted [of s w] fl
    by (simp del: One_nat_def)
qed

theorem queueWatcher_places_watcher_witness:
  "queueWatcher \<lparr>production = False, async = True\<rparr> 6 (flushing_at_2 [2, 3, 6, 8])
     = (flushing_at_2 [2, 3, 6, 8], NoCall)
   \<and> queue (fst (queueWatcher \<lparr>production = False, async = True\<rparr> 5 (pending [2, 3])))
     = [2, 3, 5]
   \<and> insert_pos (flushing_at_2 [2, 3, 6, 8]) 5 = 2
   \<and> queue (fst (queueWatcher \<lparr>production = False, async = True\<rparr> 5
        (flushing_at_2 [2, 3, 6, 8]))) = [2, 3, 5, 6, 8]
   \<and> sorted (drop 2 [2, 3, 5, 6, 8 :: nat])"
proof -
  have pos: "insert_pos (flushing_at_2 [2, 3, 6, 8]) 5 = 2"
    by (simp add: insert_pos_def flushing_at_2_def pending_def scan_back.simps)
  have h: "has (flushing_at_2 [2, 3, 6, 8]) 6" "\<not> has (flushing_at_2 [2, 3, 6, 8]) 5"
      "flushing (flushing_at_2 [2, 3, 6, 8])" "index (flushing_at_2 [2, 3, 6, 8]) = 1"
      "queue (flushing_at_2 [2, 3, 6, 8]) = [2, 3, 6, 8]"
      "\<not> has (pending [2, 3]) 5" "\<not> flushing (pending [2, 3])"
      "queue (pending [2, 3]) = [2, 3]"
    by (simp_all add: flushing_at_2_def pending_def)
  show ?thesis
    using queueWatcher_places_watcher [of "flushing_at_2 [2, 3, 6, 8]" 6
        "\<lparr>production = False, async = True\<rparr>"]
      queueWatcher_places_watcher [of "pending [2, 3]" 5 "\<lparr>production = False, async = True\<rparr>"]
      queueWatcher_places_watcher [of "flushing_at_2 [2, 3, 6, 8]" 5
        "\<lparr>production = False, async = True\<rparr>"]
    by (simp add: pos h)
qed













text \<open>
  In a production build the watcher that hands itself over is put right behind
  the running index, with no tally: the loop goes on to it, again and again.
\<close>

lemma scan_back_stops:
  assumes "int idx \<le> i" and "\<forall>j. int idx < j \<and> j \<le> i \<longrightarrow> w < q ! nat j"
  shows "scan_back q idx w i = int idx"
proof -
  note sp = scan_back_spec [OF assms(1), of q w]
  show ?thesis
  proof (rule ccontr)
    assume ne: "scan_back q idx w i \<noteq> int idx"
    with sp have "q ! nat (scan_back q idx w i) \<le> w" by blast
    moreover have "int idx < scan_back q idx w i \<and> scan_back q idx w i \<le> i"
      using sp ne by linarith
    ultimately show False using assms(2) by (meson not_le)
  qed
qed


lemma queueWatcher_next:
  assumes aw: "at_watcher s D X rest" and nh: "\<not> has s W"
    and gt: "\<forall>x\<in>set rest. W < x"
  shows "queueWatcher cfg W s =
     (s\<lparr>has := (has s)(W := True), queue := D @ X # W # rest\<rparr>, NoCall)"
proof -
  have q: "queue s = D @ X # rest" "index s = length D" "flushing s" "waiting s"
    using aw by (simp_all add: at_watcher_def)
  have "\<forall>j. int (length D) < j \<and> j \<le> int (length (D @ X # rest)) - 1 \<longrightarrow>
      W < (D @ X # rest) ! nat j"
  proof (intro allI impI)
    fix j :: int assume j: "int (length D) < j \<and> j \<le> int (length (D @ X # rest)) - 1"
    define m where "m = nat j - Suc (length D)"
    have m: "nat j = Suc (length D + m)" "m < length rest"
      using j unfolding m_def by (simp_all, linarith+)
    from m have "(D @ X # rest) ! nat j = rest ! m"
      by (simp add: nth_append)
    with gt m show "W < (D @ X # rest) ! nat j" by simp
  qed
  then have sb: "scan_back (D @ X # rest) (length D) W (int (length (D @ X # rest)) - 1)
      = int (length D)"
    by (intro scan_back_stops) simp_all
  have n: "nat (int (length D) + 1) = Suc (length D)" by linarith
  show ?thesis
    using nh q sb by (simp add: queueWatcher_def Let_def n)
qed








text \<open>
  The tally counts a watcher only when it was queued again during its own run
  (\<open>has[id] != null\<close> right after \<open>watcher.run()\<close>).  Two watchers that queue each
  other are never counted: in a development build their flush does not return
  either, and a watcher with a larger id that would re-queue itself on every run
  is never reached.
\<close>

lemma flush_body_hands_over:
  assumes aw: "at_watcher s D X rest" and nh: "\<not> has s Y" and ne: "X \<noteq> Y"
    and gt: "\<forall>x\<in>set rest. Y < x"
    and bf: "on_before bh w X = (w1, [])" and rn: "on_run bh w1 X = (w2, [Y], False)"
  shows "flush_body cfg bh w s =
     (None, w2, s\<lparr>has := (has s)(X := False, Y := True), queue := D @ X # Y # rest,
                   runs := runs s @ [X]\<rparr>)"
proof -
  let ?s2 = "s\<lparr>has := (has s)(X := False), runs := runs s @ [X]\<rparr>"
  have aw2: "at_watcher ?s2 D X rest" using aw by (simp add: at_watcher_def)
  have nh2: "\<not> has ?s2 Y" using nh ne by simp
  have qa: "queue_all cfg [Y] ?s2 =
      Some (?s2\<lparr>has := (has ?s2)(Y := True), queue := D @ X # Y # rest\<rparr>)"
    by (simp add: queueWatcher_next [OF aw2 nh2 gt])
  have w: "queue s ! index s = X" using aw by (simp add: at_watcher_def)
  show ?thesis
    using bf rn qa w ne by (simp add: flush_body_def Let_def)
qed

lemma mutual_requeue_never_returns:
  assumes ret: "flush_loop cfg bh w s = Some y" and ne: "A \<noteq> B"
    and gt: "\<forall>x\<in>set rest. A < x \<and> B < x"
  shows "bh = pair_then_self A B W \<longrightarrow>
     (\<forall>D. \<not> (at_watcher s D A rest \<and> \<not> has s B) \<and> \<not> (at_watcher s D B rest \<and> \<not> has s A))"
proof (rule flush_loop.raw_induct [where P = "\<lambda>cfg bh w s y. bh = pair_then_self A B W \<longrightarrow>
     (\<forall>D. \<not> (at_watcher s D A rest \<and> \<not> has s B) \<and> \<not> (at_watcher s D B rest \<and> \<not> has s A))",
     OF _ ret])
  fix loop :: "config \<Rightarrow> unit behaviour \<Rightarrow> unit \<Rightarrow> sched \<Rightarrow> (flush_end \<times> unit \<times> sched) option"
    and cfg bh w s y
  assume IH: "\<And>cfg bh w s y. loop cfg bh w s = Some y \<Longrightarrow> bh = pair_then_self A B W \<longrightarrow>
     (\<forall>D. \<not> (at_watcher s D A rest \<and> \<not> has s B) \<and> \<not> (at_watcher s D B rest \<and> \<not> has s A))"
    and unfolded: "(if index s < length (queue s) then
        (case flush_body cfg bh w s of
           (None, w', s') \<Rightarrow> loop cfg bh w' (s'\<lparr>index := index s' + 1\<rparr>)
         | (Some ending, w', s') \<Rightarrow> Some (ending, w', s'))
      else Some (Completed, w, s)) = Some y"
  have turn: "False" if bh: "bh = pair_then_self A B W" and aw: "at_watcher s D X rest"
      and nh: "\<not> has s Y" and xy: "(X = A \<and> Y = B) \<or> (X = B \<and> Y = A)" for D X Y
  proof -
    have xne: "X \<noteq> Y" using xy ne by auto
    have gtY: "\<forall>x\<in>set rest. Y < x" using xy gt by auto
    have bf: "on_before bh () X = ((), [])" by (simp add: bh pair_then_self_def)
    have rn: "on_run bh () X = ((), [Y], False)"
      using xy ne by (auto simp: bh pair_then_self_def)
    have idx: "index s < length (queue s)" using aw by (simp add: at_watcher_def)
    let ?s' = "s\<lparr>has := (has s)(X := False, Y := True), queue := D @ X # Y # rest,
                 runs := runs s @ [X], index := index s + 1\<rparr>"
    have "loop cfg bh w ?s' = Some y"
      using unfolded idx by (simp add: flush_body_hands_over [OF aw nh xne gtY bf rn])
    from IH [OF this] bh have no: "\<not> (at_watcher ?s' (D @ [X]) A rest \<and> \<not> has ?s' B)"
        "\<not> (at_watcher ?s' (D @ [X]) B rest \<and> \<not> has ?s' A)"
      by blast+
    have "at_watcher ?s' (D @ [X]) Y rest" "\<not> has ?s' X"
      using aw xne by (simp_all add: at_watcher_def)
    with no xy show False by auto
  qed
  show "bh = pair_then_self A B W \<longrightarrow>
     (\<forall>D. \<not> (at_watcher s D A rest \<and> \<not> has s B) \<and> \<not> (at_watcher s D B rest \<and> \<not> has s A))"
    using turn by blast
qed

lemma development_flush_of_mutual_requeue:
  "flushSchedulerQueue \<lparr>production = False, async = True\<rparr> (pair_then_self 2 3 5) ()
     (pending [2, 3, 5]) = None"
proof -
  let ?cfg = "\<lparr>production = False, async = True\<rparr>"
  let ?bh = "pair_then_self 2 3 5"
  let ?s0 = "(pending [2, 3, 5])\<lparr>flushing := True, queue := sort (queue (pending [2, 3, 5])),
      index := 0\<rparr>"
  let ?s1 = "?s0\<lparr>has := (has ?s0)(2 := False), runs := [2], index := 1\<rparr>"
  have b0: "flush_body ?cfg ?bh () ?s0 =
      (None, (), ?s0\<lparr>has := (has ?s0)(2 := False), runs := [2]\<rparr>)"
    by (simp add: flush_body_def pair_then_self_def pending_def queueWatcher_def Let_def)
  have step: "flush_loop ?cfg ?bh () ?s0 = flush_loop ?cfg ?bh () ?s1"
    by (subst flush_loop.simps) (simp add: b0, simp add: pending_def)
  have aw: "at_watcher ?s1 [2] 3 [5]" "\<not> has ?s1 2"
    by (simp_all add: at_watcher_def pending_def)
  have "flush_loop ?cfg ?bh () ?s1 = None"
  proof (cases "flush_loop ?cfg ?bh () ?s1")
    case None
    then show ?thesis .
  next
    case (Some y)
    have ne: "(2::nat) \<noteq> 3" by simp
    have gt: "\<forall>x\<in>set [5::nat]. 2 < x \<and> 3 < x" by simp
    from mutual_requeue_never_returns [OF Some ne gt, of 5] aw show ?thesis by blast
  qed
  then show ?thesis by (simp add: flushSchedulerQueue_def step)
qed

section \<open>Evaluating, re-running and tearing down a watcher\<close>

lemma addDep_frame [simp]:
  "targetStack (snd (addDep d p)) = targetStack (snd p)"
  "events (snd (addDep d p)) = events (snd p)"
  "deps (fst (addDep d p)) = deps (fst p)"
  "depIds (fst (addDep d p)) = depIds (fst p)"
  "wid (fst (addDep d p)) = wid (fst p)"
  "user (fst (addDep d p)) = user (fst p)"
  "deep (fst (addDep d p)) = deep (fst p)"
  "active (fst (addDep d p)) = active (fst p)"
  "wvalue (fst (addDep d p)) = wvalue (fst p)"
  by (cases p; simp add: addDep_def addSub_def)+

lemma addDep_ids [simp]:
  "newDepIds (fst (addDep d p)) = insert d (newDepIds (fst p))"
  by (cases p) (auto simp: addDep_def)

lemma addDep_newDeps:
  "set (newDeps (fst (addDep d p))) = (if d \<in> newDepIds (fst p) then set (newDeps (fst p)) else insert d (set (newDeps (fst p))))"
  by (cases p) (auto simp: addDep_def)

lemma addDep_subs_other:
  "d' \<noteq> d \<Longrightarrow> subs (snd (addDep d p)) d' = subs (snd p) d'"
  by (cases p) (simp add: addDep_def addSub_def)

lemma fold_addDep_frame [simp]:
  "targetStack (snd (fold addDep ds p)) = targetStack (snd p)"
  "events (snd (fold addDep ds p)) = events (snd p)"
  "deps (fst (fold addDep ds p)) = deps (fst p)"
  "depIds (fst (fold addDep ds p)) = depIds (fst p)"
  "wid (fst (fold addDep ds p)) = wid (fst p)"
  "user (fst (fold addDep ds p)) = user (fst p)"
  "deep (fst (fold addDep ds p)) = deep (fst p)"
  "active (fst (fold addDep ds p)) = active (fst p)"
  "wvalue (fst (fold addDep ds p)) = wvalue (fst p)"
  by (induction ds arbitrary: p; simp)+

lemma fold_addDep_ids [simp]:
  "newDepIds (fst (fold addDep ds p)) = newDepIds (fst p) \<union> set ds"
  by (induction ds arbitrary: p) auto

lemma fold_addDep_subs_other:
  "d \<notin> set ds \<Longrightarrow> subs (snd (fold addDep ds p)) d = subs (snd p) d"
  by (induction ds arbitrary: p) (auto simp: addDep_subs_other)

lemma cleanup_loop_frame [simp]:
  "targetStack (cleanup_loop n w st) = targetStack st"
  "events (cleanup_loop n w st) = events st"
  by (induction n arbitrary: st; simp add: removeSub_def)+

lemma cleanup_loop_subs:
  "distinct (subs st d) \<Longrightarrow>
   distinct (subs (cleanup_loop n w st) d) \<and>
   set (subs (cleanup_loop n w st) d) \<subseteq> set (subs st d) \<and>
   ((\<exists>i<n. deps w ! i = d) \<and> d \<notin> newDepIds w \<longrightarrow> wid w \<notin> set (subs (cleanup_loop n w st) d))"
proof (induction n arbitrary: st)
  case 0
  then show ?case by simp
next
  case (Suc n)
  let ?st = "if deps w ! n \<notin> newDepIds w then removeSub (deps w ! n) (wid w) st else st"
  have d: "distinct (subs ?st d)" using Suc.prems by (auto simp: removeSub_def)
  have sub: "set (subs ?st d) \<subseteq> set (subs st d)"
    using set_remove1_subset [of "wid w" "subs st d"] by (auto simp: removeSub_def)
  note IH = Suc.IH [OF d]
  have gone: "deps w ! n = d \<Longrightarrow> d \<notin> newDepIds w \<Longrightarrow> wid w \<notin> set (subs ?st d)"
    using Suc.prems by (auto simp: removeSub_def)
  show ?case
  proof (intro conjI impI)
    show "distinct (subs (cleanup_loop (Suc n) w st) d)" using IH by simp
    show "set (subs (cleanup_loop (Suc n) w st) d) \<subseteq> set (subs st d)"
      using IH sub by auto
    assume a: "(\<exists>i<Suc n. deps w ! i = d) \<and> d \<notin> newDepIds w"
    show "wid w \<notin> set (subs (cleanup_loop (Suc n) w st) d)"
    proof (cases "deps w ! n = d")
      case True
      with gone a IH show ?thesis by auto
    next
      case False
      with a have "\<exists>i<n. deps w ! i = d" by (metis less_Suc_eq)
      with IH a show ?thesis by simp
    qed
  qed
qed

lemma fold_addDep_newDeps:
  "set (newDeps (fst (fold addDep ds p))) = set (newDeps (fst p)) \<union> (set ds - newDepIds (fst p))"
  by (induction ds arbitrary: p) (auto simp: addDep_newDeps)

lemma addDep_subs_kept:
  "d \<notin> newDepIds (fst (addDep d' p)) \<Longrightarrow> subs (snd (addDep d' p)) d = subs (snd p) d"
  by (cases "d' = d") (simp_all add: addDep_subs_other)

lemma fold_addDep_subs_kept:
  "d \<notin> newDepIds (fst (fold addDep ds p)) \<Longrightarrow> subs (snd (fold addDep ds p)) d = subs (snd p) d"
  by (simp add: fold_addDep_subs_other)

text \<open>
  What the walk of \<open>traverse\<close> leaves alone, and what it does to the Deps: it only
  adds to \<open>newDepIds\<close>, and the subscribers of a Dep that is not in \<open>newDepIds\<close>
  afterwards are untouched.
\<close>

lemma fold_addDep_untouched [simp]: "untouched (fold addDep ds p) = untouched p"
  by (simp add: untouched_def)

lemma traverse_rec_untouched:
  "untouched (snd (traverse_rec n ev v p)) = untouched p"
  and traverse_slots_untouched:
  "untouched (snd (traverse_slots n ev sl p)) = untouched p"
proof (induction n ev v p and n ev sl p rule: traverse_rec_traverse_slots.induct)
  case (1 ev v p)
  show ?case by simp
next
  case (2 n ev v p)
  show ?case
  proof (cases v)
    case (JObj a)
    show ?thesis
    proof (cases "isFrozen (heap ev a) \<or> isVNode (heap ev a)")
      case True
      with JObj show ?thesis by simp
    next
      case False
      show ?thesis
      proof (cases "obDep (heap ev a)")
        case None
        with JObj False "2.IH"(1) [OF JObj False None] show ?thesis by simp
      next
        case (Some depId)
        show ?thesis
        proof (cases "depId \<in> seenObjects (snd p)")
          case True
          with JObj False Some show ?thesis by simp
        next
          case notseen: False
          from "2.IH"(2) [OF JObj False Some notseen] JObj False Some notseen
          show ?thesis by (simp add: untouched_def)
        qed
      qed
    qed
  qed simp_all
next
  case (3 n ev p)
  show ?case by simp
next
  case (4 n ev sl rest p)
  show ?case
  proof (cases "yields sl")
    case (Inl e)
    then show ?thesis by simp
  next
    case (Inr x)
    obtain r p2 where t: "traverse_rec n ev x (fold addDep (reads sl) p) = (r, p2)"
      by (cases "traverse_rec n ev x (fold addDep (reads sl) p)") auto
    from "4.IH"(1) [OF Inr] t have u: "untouched p2 = untouched p" by simp
    show ?thesis
    proof (cases r)
      case (Some e)
      with Inr t u show ?thesis by simp
    next
      case None
      from "4.IH"(2) [OF Inr t [symmetric] None] u Inr t None show ?thesis by simp
    qed
  qed
qed

lemma traverse_untouched: "untouched (snd (traverse ev v p)) = untouched p"
proof -
  obtain r w' st' where t: "traverse_rec (frames ev) ev v p = (r, w', st')"
    by (cases "traverse_rec (frames ev) ev v p") auto
  from traverse_rec_untouched [of "frames ev" ev v p] t
  have "untouched (w', st') = untouched p" by simp
  then show ?thesis
    by (cases r) (simp_all add: traverse_def t untouched_def)
qed

lemma traverse_rec_deps:
  "newDepIds (fst p) \<subseteq> newDepIds (fst (snd (traverse_rec n ev v p))) \<and>
   (d \<notin> newDepIds (fst (snd (traverse_rec n ev v p))) \<longrightarrow>
      subs (snd (snd (traverse_rec n ev v p))) d = subs (snd p) d)"
  and traverse_slots_deps:
  "newDepIds (fst p) \<subseteq> newDepIds (fst (snd (traverse_slots n ev sl p))) \<and>
   (d \<notin> newDepIds (fst (snd (traverse_slots n ev sl p))) \<longrightarrow>
      subs (snd (snd (traverse_slots n ev sl p))) d = subs (snd p) d)"
proof (induction n ev v p and n ev sl p rule: traverse_rec_traverse_slots.induct)
  case (1 ev v p)
  show ?case by simp
next
  case (2 n ev v p)
  show ?case
  proof (cases v)
    case (JObj a)
    show ?thesis
    proof (cases "isFrozen (heap ev a) \<or> isVNode (heap ev a)")
      case True
      with JObj show ?thesis by simp
    next
      case False
      show ?thesis
      proof (cases "obDep (heap ev a)")
        case None
        with JObj False "2.IH"(1) [OF JObj False None] show ?thesis by simp
      next
        case (Some depId)
        show ?thesis
        proof (cases "depId \<in> seenObjects (snd p)")
          case True
          with JObj False Some show ?thesis by simp
        next
          case notseen: False
          from "2.IH"(2) [OF JObj False Some notseen] JObj False Some notseen
          show ?thesis by simp
        qed
      qed
    qed
  qed simp_all
next
  case (3 n ev p)
  show ?case by simp
next
  case (4 n ev sl rest p)
  let ?p1 = "fold addDep (reads sl) p"
  have a: "newDepIds (fst p) \<subseteq> newDepIds (fst ?p1)" by simp
  have b: "\<And>d. d \<notin> newDepIds (fst ?p1) \<Longrightarrow> subs (snd ?p1) d = subs (snd p) d"
    by (rule fold_addDep_subs_kept)
  show ?case
  proof (cases "yields sl")
    case (Inl e)
    with a b show ?thesis by auto
  next
    case (Inr x)
    obtain r p2 where t: "traverse_rec n ev x ?p1 = (r, p2)"
      by (cases "traverse_rec n ev x ?p1") auto
    have c: "newDepIds (fst ?p1) \<subseteq> newDepIds (fst p2)"
        "d \<notin> newDepIds (fst p2) \<Longrightarrow> subs (snd p2) d = subs (snd ?p1) d"
      using "4.IH"(1) [OF Inr] t by auto
    show ?thesis
    proof (cases r)
      case (Some e)
      with Inr t a b c show ?thesis by auto
    next
      case None
      have e: "newDepIds (fst p2) \<subseteq> newDepIds (fst (snd (traverse_slots n ev rest p2)))"
          "d \<notin> newDepIds (fst (snd (traverse_slots n ev rest p2))) \<Longrightarrow>
             subs (snd (snd (traverse_slots n ev rest p2))) d = subs (snd p2) d"
        using "4.IH"(2) [OF Inr t [symmetric] None] by auto
      have res: "traverse_slots n ev (sl # rest) p = traverse_slots n ev rest p2"
        using Inr t None by simp
      have mono: "newDepIds (fst p) \<subseteq> newDepIds (fst (snd (traverse_slots n ev rest p2)))"
        using a c(1) e(1) by blast
      have kept: "subs (snd (snd (traverse_slots n ev rest p2))) d = subs (snd p) d"
        if n: "d \<notin> newDepIds (fst (snd (traverse_slots n ev rest p2)))"
      proof -
        from n e(1) have n2: "d \<notin> newDepIds (fst p2)" by blast
        with c(1) have n1: "d \<notin> newDepIds (fst ?p1)" by blast
        from e(2) [OF n] c(2) [OF n2] b [OF n1] show ?thesis by simp
      qed
      show ?thesis unfolding res using mono kept by blast
    qed
  qed
qed

lemma traverse_frame:
  "targetStack (snd (snd (traverse ev v p))) = targetStack (snd p)"
  "events (snd (snd (traverse ev v p))) = events (snd p)"
  "deps (fst (snd (traverse ev v p))) = deps (fst p)"
  "depIds (fst (snd (traverse ev v p))) = depIds (fst p)"
  "wid (fst (snd (traverse ev v p))) = wid (fst p)"
  "user (fst (snd (traverse ev v p))) = user (fst p)"
  "deep (fst (snd (traverse ev v p))) = deep (fst p)"
  "active (fst (snd (traverse ev v p))) = active (fst p)"
  "wvalue (fst (snd (traverse ev v p))) = wvalue (fst p)"
  using traverse_untouched [of ev v p] by (simp_all add: untouched_def)

lemma traverse_deps:
  "newDepIds (fst p) \<subseteq> newDepIds (fst (snd (traverse ev v p)))"
  "d \<notin> newDepIds (fst (snd (traverse ev v p))) \<Longrightarrow>
     subs (snd (snd (traverse ev v p))) d = subs (snd p) d"
proof -
  obtain r w' st' where t: "traverse_rec (frames ev) ev v p = (r, w', st')"
    by (cases "traverse_rec (frames ev) ev v p") auto
  from traverse_rec_deps [of p "frames ev" ev v d] t
  have a: "newDepIds (fst p) \<subseteq> newDepIds w'"
      "d \<notin> newDepIds w' \<Longrightarrow> subs st' d = subs (snd p) d"
    by simp_all
  show "newDepIds (fst p) \<subseteq> newDepIds (fst (snd (traverse ev v p)))"
    using a(1) by (cases r) (simp_all add: traverse_def t)
  assume "d \<notin> newDepIds (fst (snd (traverse ev v p)))"
  then have "d \<notin> newDepIds w'" by (cases r) (simp_all add: traverse_def t)
  from a(2) [OF this] show "subs (snd (snd (traverse ev v p))) d = subs (snd p) d"
    by (cases r) (simp_all add: traverse_def t)
qed

lemma try_getter_frame:
  "targetStack (snd (try_getter w ev st)) = wid w # targetStack st"
  "events (snd (try_getter w ev st)) =
     events st @ GetterCalled (wid w) #
       (case outcome ev of
          Inl e \<Rightarrow> if user w then [ErrorHandled (wid w) e] else []
        | Inr x \<Rightarrow> [])"
  "deps (fst (try_getter w ev st)) = deps w"
  "depIds (fst (try_getter w ev st)) = depIds w"
  "wid (fst (try_getter w ev st)) = wid w"
  "user (fst (try_getter w ev st)) = user w"
  "deep (fst (try_getter w ev st)) = deep w"
  "active (fst (try_getter w ev st)) = active w"
  "wvalue (fst (try_getter w ev st)) = wvalue w"
  by (simp_all add: try_getter_def Let_def pushTarget_def split: sum.splits)

lemma try_getter_deps:
  "newDepIds (fst (try_getter w ev st)) = newDepIds w \<union> set (touched ev)"
  "d \<notin> set (touched ev) \<Longrightarrow> subs (snd (try_getter w ev st)) d = subs st d"
  by (simp_all add: try_getter_def Let_def pushTarget_def fold_addDep_subs_other
      split: sum.splits)

lemma collected_frame:
  "targetStack (snd (collected w ev st)) = wid w # targetStack st"
  "events (snd (collected w ev st)) = events (snd (try_getter w ev st))"
  "deps (fst (collected w ev st)) = deps w"
  "depIds (fst (collected w ev st)) = depIds w"
  "wid (fst (collected w ev st)) = wid w"
  "user (fst (collected w ev st)) = user w"
  "deep (fst (collected w ev st)) = deep w"
  "active (fst (collected w ev st)) = active w"
  "wvalue (fst (collected w ev st)) = wvalue w"
  by (simp_all add: collected_def traverse_frame try_getter_frame)

lemma collected_deps:
  "newDepIds w \<union> set (touched ev) \<subseteq> newDepIds (fst (collected w ev st))"
  "d \<notin> newDepIds (fst (collected w ev st)) \<Longrightarrow> subs (snd (collected w ev st)) d = subs st d"
proof -
  let ?v = "case outcome ev of Inl e \<Rightarrow> JUndefined | Inr x \<Rightarrow> x"
  show "newDepIds w \<union> set (touched ev) \<subseteq> newDepIds (fst (collected w ev st))"
    using traverse_deps(1) [of "try_getter w ev st" ev ?v]
    by (auto simp: collected_def try_getter_deps)
  assume d: "d \<notin> newDepIds (fst (collected w ev st))"
  show "subs (snd (collected w ev st)) d = subs st d"
  proof (cases "deep w")
    case True
    from d True have n: "d \<notin> newDepIds (fst (snd (traverse ev ?v (try_getter w ev st))))"
      by (simp add: collected_def)
    with traverse_deps(1) [of "try_getter w ev st" ev ?v]
    have "d \<notin> set (touched ev)" by (auto simp: try_getter_deps)
    with traverse_deps(2) [OF n] True show ?thesis
      by (simp add: collected_def try_getter_deps)
  next
    case False
    with d show ?thesis by (simp add: collected_def try_getter_deps)
  qed
qed

lemma get_cases:
  "get w ev st =
     (case traverse_throws w ev st of
        Some e \<Rightarrow> (Inl e, collected w ev st)
      | None \<Rightarrow>
          ((case outcome ev of
              Inl e \<Rightarrow> if user w then Inr JUndefined else Inl e
            | Inr x \<Rightarrow> Inr x),
           cleanupDeps (fst (collected w ev st)) (popTarget (snd (collected w ev st)))))"
  by (auto simp: get_def Let_def traverse_throws_def collected_def
      split: prod.splits option.splits)

lemma get_events:
  "events (snd (snd (get w ev st))) =
     events st @ GetterCalled (wid w) #
       (case outcome ev of
          Inl e \<Rightarrow> if user w then [ErrorHandled (wid w) e] else []
        | Inr x \<Rightarrow> [])"
  by (simp add: get_cases collected_frame try_getter_frame cleanupDeps_def popTarget_def
      split: option.splits)

lemma get_frame:
  "wid (fst (snd (get w ev st))) = wid w"
  "active (fst (snd (get w ev st))) = active w"
  "wvalue (fst (snd (get w ev st))) = wvalue w"
  "deep (fst (snd (get w ev st))) = deep w"
  "user (fst (snd (get w ev st))) = user w"
  by (simp_all add: get_cases collected_frame cleanupDeps_def split: option.splits)

text \<open>
  When \<open>traverse\<close> does not throw (the watcher is not deep, or the walk returns),
  \<open>get\<close> does what the \<open>finally\<close> block is written for, whether the getter returned or
  threw: the target stack is what it was before the call; the ids collected in this
  round are the current \<open>depIds\<close> and the Deps collected are the current \<open>deps\<close>;
  \<open>newDeps\<close> and \<open>newDepIds\<close> are empty; every Dep of the previous \<open>deps\<close> that was not
  collected again no longer has the watcher among its subscribers (subscriber lists
  hold no duplicates); a thrown error is handed to \<open>handleError\<close> and \<open>get\<close> returns
  \<open>undefined\<close> for a user watcher, and it leaves \<open>get\<close> as an exception for any other
  watcher.
\<close>

lemma get_reconciles_when_traverse_returns:
  assumes ok: "traverse_throws w ev st = None"
  shows "targetStack (snd (snd (get w ev st))) = targetStack st"
    and "depIds (fst (snd (get w ev st))) = newDepIds (fst (collected w ev st))"
    and "deps (fst (snd (get w ev st))) = newDeps (fst (collected w ev st))"
    and "newDepIds w \<union> set (touched ev) \<subseteq> depIds (fst (snd (get w ev st)))"
    and "newDeps (fst (snd (get w ev st))) = []"
    and "newDepIds (fst (snd (get w ev st))) = {}"
    and "d \<in> set (deps w) \<Longrightarrow> d \<notin> depIds (fst (snd (get w ev st))) \<Longrightarrow>
         distinct (subs st d) \<Longrightarrow> wid w \<notin> set (subs (snd (snd (get w ev st))) d)"
    and "fst (get w ev st) =
        (case outcome ev of
           Inl e \<Rightarrow> if user w then Inr JUndefined else Inl e
         | Inr x \<Rightarrow> Inr x)"
proof -
  let ?c = "collected w ev st"
  have g: "get w ev st =
      ((case outcome ev of
          Inl e \<Rightarrow> if user w then Inr JUndefined else Inl e
        | Inr x \<Rightarrow> Inr x),
       cleanupDeps (fst ?c) (popTarget (snd ?c)))"
    using ok by (simp add: get_cases)
  show "targetStack (snd (snd (get w ev st))) = targetStack st"
    by (simp add: g cleanupDeps_def popTarget_def collected_frame)
  show ids: "depIds (fst (snd (get w ev st))) = newDepIds (fst ?c)"
    by (simp add: g cleanupDeps_def)
  show "deps (fst (snd (get w ev st))) = newDeps (fst ?c)"
    by (simp add: g cleanupDeps_def)
  show "newDepIds w \<union> set (touched ev) \<subseteq> depIds (fst (snd (get w ev st)))"
    unfolding ids by (rule collected_deps(1))
  show "newDeps (fst (snd (get w ev st))) = []" by (simp add: g cleanupDeps_def)
  show "newDepIds (fst (snd (get w ev st))) = {}" by (simp add: g cleanupDeps_def)
  show "fst (get w ev st) =
        (case outcome ev of
           Inl e \<Rightarrow> if user w then Inr JUndefined else Inl e
         | Inr x \<Rightarrow> Inr x)"
    by (simp add: g)
  assume d: "d \<in> set (deps w)" and nr: "d \<notin> depIds (fst (snd (get w ev st)))"
    and dist: "distinct (subs st d)"
  from nr have nc: "d \<notin> newDepIds (fst ?c)" unfolding ids .
  have d4: "distinct (subs (popTarget (snd ?c)) d)"
    using dist collected_deps(2) [OF nc] by (simp add: popTarget_def)
  obtain i where i: "i < length (deps w)" "deps w ! i = d"
    using d by (auto simp: in_set_conv_nth)
  have "wid (fst ?c) \<notin> set (subs (cleanup_loop (length (deps (fst ?c))) (fst ?c)
      (popTarget (snd ?c))) d)"
    using cleanup_loop_subs [OF d4, of "length (deps (fst ?c))" "fst ?c"] i nc
    by (auto simp: collected_frame)
  then show "wid w \<notin> set (subs (snd (snd (get w ev st))) d)"
    by (simp add: g cleanupDeps_def collected_frame)
qed

text \<open>
  When \<open>traverse\<close> throws, its exception leaves \<open>get\<close>, also from a user watcher, and
  the rest of the \<open>finally\<close> block is skipped: the watcher stays on the target
  stack, and \<open>deps\<close> and \<open>depIds\<close> are the old ones.
\<close>

lemma get_when_traverse_throws:
  assumes "traverse_throws w ev st = Some e"
  shows "fst (get w ev st) = Inl e"
    and "targetStack (snd (snd (get w ev st))) = wid w # targetStack st"
    and "deps (fst (snd (get w ev st))) = deps w"
    and "depIds (fst (snd (get w ev st))) = depIds w"
    and "newDepIds w \<union> set (touched ev) \<subseteq> newDepIds (fst (snd (get w ev st)))"
  using assms collected_deps(1) [of w ev st]
  by (simp_all add: get_cases collected_frame)

text \<open>
  A walk that comes to an object without \<open>__ob__\<close> that holds itself never returns
  normally: however many calls the stack takes, it ends in the RangeError.
\<close>

lemma traverse_rec_self_reference:
  assumes h: "heap ev a = self_reference a"
  shows "fst (traverse_rec n ev (JObj a) p) = Some (overflow ev)"
proof (induction n)
  case 0
  show ?case by simp
next
  case (Suc n)
  obtain r p' where t: "traverse_rec n ev (JObj a) p = (r, p')"
    by (cases "traverse_rec n ev (JObj a) p") auto
  with Suc have r: "r = Some (overflow ev)" by simp
  show ?case by (simp add: h self_reference_def t r)
qed

lemma get_of_self_reference:
  "deep w \<Longrightarrow> outcome ev = Inr (JObj a) \<Longrightarrow> heap ev a = self_reference a \<Longrightarrow>
   fst (get w ev st) = Inl (overflow ev) \<and>
   targetStack (snd (snd (get w ev st))) = wid w # targetStack st"
proof -
  assume a: "deep w" "outcome ev = Inr (JObj a)" "heap ev a = self_reference a"
  have "traverse_throws w ev st = Some (overflow ev)"
    using a traverse_rec_self_reference [OF a(3), of "frames ev" "try_getter w ev st"]
    by (auto simp: traverse_throws_def traverse_def split: prod.splits option.splits)
  from get_when_traverse_throws(1,2) [OF this] show ?thesis by simp
qed

text \<open>
  C6.  The claim does not hold of a deep watcher whose \<open>traverse(value)\<close> throws.
  The user watcher 7 holds the Deps 4 and 2; its getter registers Dep 2 and returns
  an object whose only property has a getter that registers Dep 3 and throws.
  \<open>get()\<close> throws that exception (it is not handed to \<open>handleError\<close>), the watcher is
  still on the target stack, \<open>newDeps\<close> and \<open>newDepIds\<close> still hold what was collected,
  \<open>deps\<close> and \<open>depIds\<close> are the old ones, Dep 4 still has the watcher as a subscriber,
  and \<open>seenObjects\<close> was not cleared.
\<close>

theorem get_leaves_target_when_traverse_throws:
  "fst (get deep_watcher7 (returning_object throwing_property 1000) world7) = Inl (JStr ''boom'')
   \<and> targetStack world7 = []
   \<and> targetStack (snd (snd (get deep_watcher7 (returning_object throwing_property 1000) world7)))
       = [7]
   \<and> newDeps (fst (snd (get deep_watcher7 (returning_object throwing_property 1000) world7)))
       = [2, 3]
   \<and> newDepIds (fst (snd (get deep_watcher7 (returning_object throwing_property 1000) world7)))
       = {2, 3}
   \<and> deps (fst (snd (get deep_watcher7 (returning_object throwing_property 1000) world7)))
       = [4, 2]
   \<and> depIds (fst (snd (get deep_watcher7 (returning_object throwing_property 1000) world7)))
       = {4, 2}
   \<and> subs (snd (snd (get deep_watcher7 (returning_object throwing_property 1000) world7))) 4
       = [7]
   \<and> seenObjects (snd (snd (get deep_watcher7 (returning_object throwing_property 1000) world7)))
       = {5}
   \<and> events (snd (snd (get deep_watcher7 (returning_object throwing_property 1000) world7)))
       = [GetterCalled 7]"
proof -
  let ?ev = "returning_object throwing_property 1000"
  let ?p3 = "(deep_watcher7\<lparr>newDepIds := {2}, newDeps := [2]\<rparr>,
       world7\<lparr>targetStack := [7], events := [GetterCalled 7]\<rparr>)"
  let ?p4 = "(deep_watcher7\<lparr>newDepIds := {2, 3}, newDeps := [2, 3]\<rparr>,
       world7\<lparr>targetStack := [7], subs := (subs world7)(3 := [7]), seenObjects := {5},
         events := [GetterCalled 7]\<rparr>)"
  have tg: "try_getter deep_watcher7 ?ev world7 = ?p3"
    by (simp add: try_getter_def returning_object_def deep_watcher7_def watcher7_def
        world7_def pushTarget_def addDep_def Let_def)
  have "traverse_rec (Suc 999) ?ev (JObj 9) ?p3 = (Some (JStr ''boom''), ?p4)"
    by (simp add: returning_object_def throwing_property_def deep_watcher7_def watcher7_def
        world7_def addDep_def addSub_def insert_commute del: Suc_numeral)
  then have tr: "traverse_rec 1000 ?ev (JObj 9) ?p3 = (Some (JStr ''boom''), ?p4)"
    by simp
  have fr: "frames ?ev = 1000" "outcome ?ev = Inr (JObj 9)" "deep deep_watcher7"
    by (simp_all add: returning_object_def deep_watcher7_def)
  have g: "get deep_watcher7 ?ev world7 = (Inl (JStr ''boom''), ?p4)"
    by (simp add: get_def Let_def tg traverse_def fr tr)
  show ?thesis
    by (simp add: g) (simp add: deep_watcher7_def watcher7_def world7_def)
qed

lemma get_no_callback:
  "filter is_callback (events (snd (snd (get w ev st)))) = filter is_callback (events st)"
  by (simp add: get_events split: sum.splits)

lemma run_unfold:
  "run isObject w ev st =
     (if active w then
        (case fst (get w ev st) of
           Inl e \<Rightarrow> (Some e, snd (get w ev st))
         | Inr v \<Rightarrow>
             if \<not> strict_eq v (wvalue w) \<or> isObject v \<or> deep w then
               (case cb_throws ev of
                  None \<Rightarrow>
                    (None, (fst (snd (get w ev st)))\<lparr>wvalue := v\<rparr>,
                     (snd (snd (get w ev st)))
                       \<lparr>events := events (snd (snd (get w ev st))) @
                                  [CallbackCalled (wid w) v (wvalue w)]\<rparr>)
                | Some e \<Rightarrow>
                    if user w
                    then (None, (fst (snd (get w ev st)))\<lparr>wvalue := v\<rparr>,
                          (snd (snd (get w ev st)))
                            \<lparr>events := events (snd (snd (get w ev st))) @
                                       [CallbackCalled (wid w) v (wvalue w),
                                        ErrorHandled (wid w) e]\<rparr>)
                    else (Some e, (fst (snd (get w ev st)))\<lparr>wvalue := v\<rparr>,
                          (snd (snd (get w ev st)))
                            \<lparr>events := events (snd (snd (get w ev st))) @
                                       [CallbackCalled (wid w) v (wvalue w)]\<rparr>))
             else (None, snd (get w ev st)))
      else (None, w, st))"
proof -
  obtain r w' st' where g: "get w ev st = (r, w', st')" by (cases "get w ev st") auto
  have fr: "wid w' = wid w" "wvalue w' = wvalue w" "deep w' = deep w" "user w' = user w"
    using get_frame [of w ev st] by (simp_all add: g)
  show ?thesis
    by (simp add: run_def g fr Let_def split: sum.splits option.splits)
qed

text \<open>
  C7.  \<open>Watcher.run()\<close> on an active watcher.  When \<open>get()\<close> yields the value \<open>v\<close>, the
  callback is called, with \<open>(v, old value)\<close>, exactly when \<open>v !== old value\<close>, or
  \<open>isObject(v)\<close>, or the watcher is deep, and then the cached value becomes \<open>v\<close>;
  otherwise no callback is called and the cached value stays.  When \<open>get()\<close> throws
  (the getter of a watcher that is not a user watcher threw), \<open>run\<close> throws too,
  without a callback and without a change of the cached value.
\<close>

theorem run_calls_back_exactly_when:
  assumes act: "active w"
  shows "(fst (get w ev st) = Inr v \<longrightarrow>
            filter is_callback (events (snd (snd (run isObject w ev st)))) =
              filter is_callback (events st) @
                (if \<not> strict_eq v (wvalue w) \<or> isObject v \<or> deep w
                 then [CallbackCalled (wid w) v (wvalue w)] else [])
          \<and> wvalue (fst (snd (run isObject w ev st))) =
                (if \<not> strict_eq v (wvalue w) \<or> isObject v \<or> deep w then v else wvalue w))
       \<and> (fst (get w ev st) = Inl e \<longrightarrow>
            fst (run isObject w ev st) = Some e
          \<and> filter is_callback (events (snd (snd (run isObject w ev st)))) =
              filter is_callback (events st)
          \<and> wvalue (fst (snd (run isObject w ev st))) = wvalue w)"
  using act get_no_callback [of w ev st] get_frame(3) [of w ev st]
  by (simp add: run_unfold split: option.splits)

theorem run_calls_back_exactly_when_witness:
  "active watcher7
   \<and> fst (get watcher7 (returning (JNum 5)) world7) = Inr (JNum 5)
   \<and> filter is_callback (events (snd (snd (run isObject_js watcher7 (returning (JNum 5)) world7))))
        = []
   \<and> fst (get watcher7 (returning (JNum 6)) world7) = Inr (JNum 6)
   \<and> filter is_callback (events (snd (snd (run isObject_js watcher7 (returning (JNum 6)) world7))))
        = [CallbackCalled 7 (JNum 6) (JNum 5)]
   \<and> wvalue (fst (snd (run isObject_js watcher7 (returning (JNum 6)) world7))) = JNum 6
   \<and> filter is_callback (events (snd (snd (run isObject_js watcher7 (returning (JObj 9))
        (world7\<lparr>events := []\<rparr>))))) = [CallbackCalled 7 (JObj 9) (JNum 5)]"
proof -
  have h: "active watcher7" "wvalue watcher7 = JNum 5" "wid watcher7 = 7" "\<not> deep watcher7"
      "events world7 = []"
      "\<And>v. fst (get watcher7 (returning v) world7) = Inr v"
      "\<And>v. fst (get watcher7 (returning v) (world7\<lparr>events := []\<rparr>)) = Inr v"
    by (simp_all add: watcher7_def world7_def returning_def get_def Let_def)
  show ?thesis
    using run_calls_back_exactly_when [of watcher7 "returning (JNum 5)" world7 "JNum 5"
        isObject_js]
      run_calls_back_exactly_when [of watcher7 "returning (JNum 6)" world7 "JNum 6"
        isObject_js]
      run_calls_back_exactly_when [of watcher7 "returning (JObj 9)" "world7\<lparr>events := []\<rparr>"
        "JObj 9" isObject_js]
    by (simp add: h strict_eq_def isObject_js_def)
qed

lemma inactive_step:
  "\<not> active (fst x) \<Longrightarrow>
   \<not> active (fst (apply_op cfg isObject op x)) \<and>
   events (snd (snd (apply_op cfg isObject op x))) = events (snd (snd x))"
proof (cases x)
  case (fields w s st)
  assume "\<not> active (fst x)"
  with fields show ?thesis
    by (cases op) (auto simp: update_def run_def teardown_def split: prod.splits)
qed

lemma inactive_stays:
  "\<not> active (fst x) \<Longrightarrow>
   \<not> active (fst (after cfg isObject steps x)) \<and>
   events (snd (snd (after cfg isObject steps x))) = events (snd (snd x))"
  unfolding after_def
proof (induction steps arbitrary: x)
  case Nil
  then show ?case by simp
next
  case (Cons op steps)
  from inactive_step [OF Cons.prems, of cfg isObject op]
  have a: "\<not> active (fst (apply_op cfg isObject op x))"
    and e: "events (snd (snd (apply_op cfg isObject op x))) = events (snd (snd x))"
    by simp_all
  from Cons.IH [OF a] e show ?case by simp
qed

lemma teardown_loop_events [simp]: "events (teardown_loop n w st) = events st"
  by (induction n arbitrary: st) (simp_all add: removeSub_def)

text \<open>
  C8.  \<open>teardown()\<close> calls neither the getter nor the callback and leaves the
  watcher inactive.  After any sequence of later steps, in any number and order
  (\<open>update()\<close> calls, which may queue the watcher; \<open>run()\<close> calls by the flush of the
  scheduler; further \<open>teardown()\<close> calls), the watcher is still inactive and nothing
  has happened: neither its getter nor its callback was called.  A second
  \<open>teardown()\<close> changes neither the watcher nor anything around it.
\<close>

theorem teardown_is_final:
  "\<not> active (fst (teardown w st))
   \<and> events (snd (teardown w st)) = events st
   \<and> \<not> active (fst (after cfg isObject steps (fst (teardown w st), s, snd (teardown w st))))
   \<and> events (snd (snd (after cfg isObject steps (fst (teardown w st), s, snd (teardown w st)))))
       = events st
   \<and> teardown (fst (teardown w st)) st2 = (fst (teardown w st), st2)"
proof -
  have a: "\<not> active (fst (teardown w st))" by (simp add: teardown_def)
  have e: "events (snd (teardown w st)) = events st" by (simp add: teardown_def)
  have b: "teardown (fst (teardown w st)) st2 = (fst (teardown w st), st2)"
    using a by (simp add: teardown_def)
  from a e b inactive_stays [of "(fst (teardown w st), s, snd (teardown w st))" cfg isObject steps]
  show ?thesis by simp
qed

theorem teardown_is_final_witness:
  "active watcher7
   \<and> \<not> active (fst (teardown watcher7 world7))
   \<and> subs (snd (teardown watcher7 world7)) 4 = []
   \<and> queue (fst (snd (after dev_cfg isObject_js [Invalidate (returning (JNum 6))]
        (fst (teardown watcher7 world7), pending [], snd (teardown watcher7 world7))))) = [7]
   \<and> events (snd (snd (after dev_cfg isObject_js
        [Invalidate (returning (JNum 6)),
         SchedulerRun (returning (JNum 6)) (resetSchedulerState dev_cfg (pending [7])),
         Teardown]
        (fst (teardown watcher7 world7), pending [], snd (teardown watcher7 world7))))) = []"
proof -
  have q: "queue (fst (snd (after dev_cfg isObject_js [Invalidate (returning (JNum 6))]
        (fst (teardown watcher7 world7), pending [], snd (teardown watcher7 world7))))) = [7]"
    by (simp add: after_def update_def teardown_def watcher7_def queueWatcher_def pending_def
        dev_cfg_def Let_def)
  have t: "active watcher7" "subs (snd (teardown watcher7 world7)) 4 = []" "events world7 = []"
    by (simp_all add: teardown_def watcher7_def world7_def removeSub_def numeral_2_eq_2)
  show ?thesis
    using teardown_is_final [of watcher7 world7 dev_cfg isObject_js
        "[Invalidate (returning (JNum 6)),
          SchedulerRun (returning (JNum 6)) (resetSchedulerState dev_cfg (pending [7])),
          Teardown]" "pending []"] q t
    by simp
qed

section \<open>The order of effects of a patched array method\<close>



end
